theory Spec2Isabelle
  imports Main
begin

section \<open>Python string primitives used by the link pipeline\<close>

text \<open>
  Python \<open>str\<close> values are modelled as \<^typ>\<open>string\<close>.  Every delimiter the program
  looks at (\<open>[ ] ( ) . / % & < > " '\<close>) is ASCII, so a character beyond ASCII may be read
  as its UTF-8 code units without changing what the functions below compute.
\<close>

fun startswith :: "string \<Rightarrow> string \<Rightarrow> bool" where
  "startswith s [] = True"
| "startswith [] (p # ps) = False"
| "startswith (c # cs) (p # ps) = (c = p \<and> startswith cs ps)"

text \<open>\<open>s.split(c)\<close> for a one-character separator: always at least one segment.\<close>

fun split_str :: "char \<Rightarrow> string \<Rightarrow> string list" where
  "split_str c [] = [[]]"
| "split_str c (x # xs) =
     (if x = c then [] # split_str c xs
      else (case split_str c xs of
              [] \<Rightarrow> [[x]]
            | y # ys \<Rightarrow> (x # y) # ys))"

text \<open>\<open>s.rfind(c)\<close>; Python's \<open>-1\<close> is \<open>None\<close>.\<close>

definition rfind :: "char \<Rightarrow> string \<Rightarrow> nat option" where
  "rfind c s =
     (if c \<in> set s
      then Some (length s - 1 - length (takeWhile (\<lambda>x. x \<noteq> c) (rev s)))
      else None)"

text \<open>
  \<open>pathlib.PurePosixPath(p).name\<close>: the path is split at \<open>/\<close>, empty components and
  \<open>.\<close> components are dropped, and the name is the last component that is left
  (the empty string when there is none).
\<close>

definition path_name :: "string \<Rightarrow> string" where
  "path_name p =
     (case filter (\<lambda>x. x \<noteq> [] \<and> x \<noteq> ''.'') (split_str CHR ''/'' p) of
        [] \<Rightarrow> []
      | x # xs \<Rightarrow> last (x # xs))"

text \<open>
  \<open>pathlib.PurePosixPath(p).stem\<close>: the name up to its last dot, unless that dot is the
  first or the last character of the name.
\<close>

definition path_stem :: "string \<Rightarrow> string" where
  "path_stem p =
     (let name = path_name p in
      case rfind CHR ''.'' name of
        None \<Rightarrow> name
      | Some i \<Rightarrow> if 0 < i \<and> i < length name - 1 then take i name else name)"

section \<open>The file inventory\<close>

record file_info =
  path :: string
  name_without_ext :: string
  full_name :: string

section \<open>The fuzzy link resolver\<close>

text \<open>\<open>xs.index(x)\<close>: the first position of \<open>x\<close>; \<open>None\<close> stands for the ValueError.\<close>

fun index_of :: "'a \<Rightarrow> 'a list \<Rightarrow> nat option" where
  "index_of x [] = None"
| "index_of x (y # ys) =
     (if x = y then Some 0
      else (case index_of x ys of None \<Rightarrow> None | Some i \<Rightarrow> Some (Suc i)))"

fun best_of :: "(string \<times> int) \<Rightarrow> (string \<times> int) list \<Rightarrow> (string \<times> int)" where
  "best_of b [] = b"
| "best_of b (x # xs) = best_of (if snd b < snd x then x else b) xs"

text \<open>
  Modelled from the spec: \<open>thefuzz.process.extractOne\<close>, the external library function
  that \<open>find_best_match\<close> calls, is not part of the source tree.  Following section 4.2 it
  scores the query against every choice with a similarity function (\<open>score\<close>, a
  parameter: the exact algorithm is an implementation choice), selects the highest score,
  and on a tie keeps the first choice that reached it.  No choice gives \<open>None\<close>.
\<close>

definition extractOne ::
  "(string \<Rightarrow> string \<Rightarrow> int) \<Rightarrow> string \<Rightarrow> string list \<Rightarrow> (string \<times> int) option" where
  "extractOne score query choices =
     (case map (\<lambda>c. (c, score query c)) choices of
        [] \<Rightarrow> None
      | x # xs \<Rightarrow> Some (best_of x xs))"

text \<open>
  \<open>find_best_match(filename, file_list)\<close>.  The \<open>try\<close> body can only raise at
  \<open>names_for_matching.index\<close>; the handler turns that into \<open>None\<close> as well.
\<close>

definition find_best_match ::
  "(string \<Rightarrow> string \<Rightarrow> int) \<Rightarrow> string \<Rightarrow> file_info list option \<Rightarrow> string option" where
  "find_best_match score filename file_list =
     (case file_list of
        None \<Rightarrow> None
      | Some fl \<Rightarrow>
          if fl = [] then None
          else
            (let target_name = path_stem filename;
                 names_for_matching = map name_without_ext fl
             in case extractOne score target_name names_for_matching of
                  None \<Rightarrow> None
                | Some (best, best_score) \<Rightarrow>
                    if 60 < best_score then
                      (case index_of best names_for_matching of
                         None \<Rightarrow> None
                       | Some matched_index \<Rightarrow> Some (path (fl ! matched_index)))
                    else None))"


definition entry_score :: "(string \<Rightarrow> string \<Rightarrow> int) \<Rightarrow> string \<Rightarrow> file_info \<Rightarrow> int" where
  "entry_score score filename r = score (path_stem filename) (name_without_ext r)"

section \<open>The file inventory scanner\<close>

text \<open>
  An exception is modelled by its message (\<open>str(e)\<close>); every handler of the program is
  \<open>except Exception\<close>, so the class of an exception never decides a branch.
\<close>

datatype exn = Exception string

text \<open>
  The file system as \<open>scan_files_directory\<close> sees it: the answers of the three
  read-only operations it performs, each of which may raise.  \<open>fs_rglob\<close> gives the
  paths the generator \<open>files_dir.rglob("*")\<close> yields, in order and as \<open>str\<close> prints
  them, and the exception, if any, that ends the iteration early.
\<close>

record filesystem =
  fs_exists :: "string \<Rightarrow> exn + bool"
  fs_rglob :: "string \<Rightarrow> string list \<times> exn option"
  fs_is_file :: "string \<Rightarrow> exn + bool"

text \<open>
  \<open>file_path.relative_to(Path("."))\<close>: a relative path is returned as it is, an absolute
  one raises ValueError.
\<close>

definition relative_to_cwd :: "string \<Rightarrow> exn + string" where
  "relative_to_cwd p =
     (if startswith p ''/''
      then Inl (Exception (p @ '' is not in the subpath of .''))
      else Inr p)"

fun scan_loop :: "filesystem \<Rightarrow> string list \<Rightarrow> file_info list \<Rightarrow> exn + file_info list" where
  "scan_loop fs [] all_files = Inr all_files"
| "scan_loop fs (file_path # rest) all_files =
     (case fs_is_file fs file_path of
        Inl e \<Rightarrow> Inl e
      | Inr False \<Rightarrow> scan_loop fs rest all_files
      | Inr True \<Rightarrow>
          (case relative_to_cwd file_path of
             Inl e \<Rightarrow> Inl e
           | Inr relative_path \<Rightarrow>
               scan_loop fs rest
                 (all_files @
                  [\<lparr>path = relative_path,
                    name_without_ext = path_stem file_path,
                    full_name = path_name file_path\<rparr>])))"

text \<open>The body of the \<open>try\<close> block: \<open>Inl\<close> is an exception on its way to the handler.\<close>

definition scan_body :: "filesystem \<Rightarrow> string \<Rightarrow> exn + file_info list option" where
  "scan_body fs files_directory =
     (case fs_exists fs files_directory of
        Inl e \<Rightarrow> Inl e
      | Inr False \<Rightarrow> Inr None
      | Inr True \<Rightarrow>
          (case fs_rglob fs files_directory of
             (entries, stopped) \<Rightarrow>
               (case scan_loop fs entries [] of
                  Inl e \<Rightarrow> Inl e
                | Inr all_files \<Rightarrow>
                    (case stopped of
                       Some e \<Rightarrow> Inl e
                     | None \<Rightarrow> if all_files = [] then Inr None else Inr (Some all_files)))))"

text \<open>
  \<open>scan_files_directory(files_directory)\<close>: the handler returns \<open>None\<close> for every
  exception of the body.  The file system is threaded through as state; the function
  hands back the one it leaves behind.
\<close>

definition scan_files_directory ::
  "filesystem \<Rightarrow> string \<Rightarrow> file_info list option \<times> filesystem" where
  "scan_files_directory fs files_directory =
     (case scan_body fs files_directory of
        Inl e \<Rightarrow> (None, fs)
      | Inr result \<Rightarrow> (result, fs))"

section \<open>The markdown link extractor\<close>

text \<open>
  One attempt of the pattern \<open>\[([^\]]+)\]\(([^)]+)\)\<close> at the beginning of \<open>s\<close>.
  Both groups are runs of a negated character class followed by the character the class
  excludes, so the greedy run is the only candidate and no backtracking is involved.
\<close>

definition match_at :: "string \<Rightarrow> (string \<times> string) option" where
  "match_at s =
     (case s of
        [] \<Rightarrow> None
      | c # r0 \<Rightarrow>
          if c \<noteq> CHR ''['' then None
          else
            (let link_text = takeWhile (\<lambda>x. x \<noteq> CHR '']'') r0;
                 r1 = dropWhile (\<lambda>x. x \<noteq> CHR '']'') r0
             in if link_text = [] \<or> \<not> startswith r1 '']('' then None
                else
                  (let r2 = drop 2 r1;
                       url = takeWhile (\<lambda>x. x \<noteq> CHR '')'') r2;
                       r3 = dropWhile (\<lambda>x. x \<noteq> CHR '')'') r2
                   in if url = [] \<or> r3 = [] then None else Some (link_text, url))))"

text \<open>
  \<open>re.findall(pattern, text)\<close>: the scanner tries the pattern at each position from left
  to right; after a match it resumes behind the match.  \<open>skip\<close> counts the characters of
  the last match that are still to be passed over.
\<close>

fun findall_from :: "nat \<Rightarrow> string \<Rightarrow> (string \<times> string) list" where
  "findall_from skip [] = []"
| "findall_from skip (c # cs) =
     (if 0 < skip then findall_from (skip - 1) cs
      else (case match_at (c # cs) of
              None \<Rightarrow> findall_from 0 cs
            | Some (link_text, url) \<Rightarrow>
                (link_text, url) # findall_from (length link_text + length url + 3) cs))"

definition findall :: "string \<Rightarrow> (string \<times> string) list" where
  "findall text = findall_from 0 text"

subsection \<open>Percent-decoding\<close>

definition hexval :: "char \<Rightarrow> nat option" where
  "hexval c =
     (let n = (of_char c :: nat) in
      if 48 \<le> n \<and> n \<le> 57 then Some (n - 48)
      else if 65 \<le> n \<and> n \<le> 70 then Some (n - 55)
      else if 97 \<le> n \<and> n \<le> 102 then Some (n - 87)
      else None)"

text \<open>\<open>urllib.parse.unquote_to_bytes\<close>: every \<open>%XX\<close> with two hex digits becomes one byte.\<close>

fun unquote_to_bytes :: "string \<Rightarrow> string" where
  "unquote_to_bytes (c # h1 # h2 # cs) =
     (if c = CHR ''%'' then
        (case (hexval h1, hexval h2) of
           (Some a, Some b) \<Rightarrow> char_of (16 * a + b) # unquote_to_bytes cs
         | _ \<Rightarrow> c # unquote_to_bytes (h1 # h2 # cs))
      else c # unquote_to_bytes (h1 # h2 # cs))"
| "unquote_to_bytes cs = cs"

definition is_ascii :: "char \<Rightarrow> bool" where
  "is_ascii c = ((of_char c :: nat) < 128)"

text \<open>The maximal runs of ASCII and of non-ASCII characters, each tagged with its kind.\<close>

fun ascii_runs :: "string \<Rightarrow> (bool \<times> string) list" where
  "ascii_runs [] = []"
| "ascii_runs (c # cs) =
     (case ascii_runs cs of
        [] \<Rightarrow> [(is_ascii c, [c])]
      | (a, r) # rs \<Rightarrow>
          if a = is_ascii c then (a, c # r) # rs
          else (is_ascii c, [c]) # (a, r) # rs)"

text \<open>
  \<open>urllib.parse.unquote(s)\<close>: a string without \<open>%\<close> is returned as it is; otherwise
  each ASCII run is percent-decoded to bytes and those bytes are decoded as UTF-8 with
  \<open>errors='replace'\<close>.  That last step, \<open>decode\<close>, is a parameter.
\<close>

definition unquote :: "(string \<Rightarrow> string) \<Rightarrow> string \<Rightarrow> string" where
  "unquote decode s =
     (if CHR ''%'' \<notin> set s then s
      else concat (map (\<lambda>(a, r). if a then decode (unquote_to_bytes r) else r) (ascii_runs s)))"

subsection \<open>Extraction\<close>

record link_info =
  filename :: string
  url :: string
  original_link :: string
  link_text :: string
  fuzzy_matched :: bool

text \<open>The candidate filename of a link, before percent-decoding.\<close>

definition candidate_filename :: "string \<Rightarrow> string \<Rightarrow> string" where
  "candidate_filename text_of_link target =
     (let filename = (if target \<noteq> [] then path_name target else text_of_link)
      in if filename = [] \<or> CHR ''.'' \<notin> set filename then text_of_link else filename)"

text \<open>\<open>filename.split('.')[0]\<close>\<close>

definition first_segment :: "string \<Rightarrow> string" where
  "first_segment s = (case split_str CHR ''.'' s of [] \<Rightarrow> [] | x # xs \<Rightarrow> x)"

text \<open>The body of the loop over the matches, for a link that is not skipped.\<close>

definition make_link_info ::
  "(string \<Rightarrow> string \<Rightarrow> int) \<Rightarrow> (string \<Rightarrow> string) \<Rightarrow> file_info list option \<Rightarrow>
   string \<Rightarrow> string \<Rightarrow> link_info" where
  "make_link_info score decode file_list text_of_link target =
     (let filename = unquote decode (candidate_filename text_of_link target);
          matched_filepath = find_best_match score filename file_list;
          final_url = (case matched_filepath of
                         None \<Rightarrow> target
                       | Some p \<Rightarrow> if p = [] then target else ''/gradio_api/file='' @ p)
      in \<lparr>filename = first_segment filename,
          url = final_url,
          original_link = ''['' @ text_of_link @ '']('' @ target @ '')'',
          link_text = text_of_link,
          fuzzy_matched = (matched_filepath \<noteq> None)\<rparr>)"

fun extract_loop ::
  "(string \<Rightarrow> string \<Rightarrow> int) \<Rightarrow> (string \<Rightarrow> string) \<Rightarrow> file_info list option \<Rightarrow>
   (string \<times> string) list \<Rightarrow> link_info list \<Rightarrow> link_info list" where
  "extract_loop score decode file_list [] links_info = links_info"
| "extract_loop score decode file_list ((text_of_link, target) # rest) links_info =
     (if startswith target ''http://'' \<or> startswith target ''https://''
      then extract_loop score decode file_list rest links_info
      else extract_loop score decode file_list rest
             (links_info @ [make_link_info score decode file_list text_of_link target]))"

definition extract_markdown_links ::
  "(string \<Rightarrow> string \<Rightarrow> int) \<Rightarrow> (string \<Rightarrow> string) \<Rightarrow> filesystem \<Rightarrow> string \<Rightarrow> link_info list" where
  "extract_markdown_links score decode fs text =
     (let matches = findall text in
      if matches = [] then []
      else
        (let file_list = fst (scan_files_directory fs ''public/files/'')
         in extract_loop score decode file_list matches []))"

section \<open>The message rewriter and card synthesizer\<close>

text \<open>\<open>html.escape(s)\<close> with \<open>quote=True\<close>.\<close>

definition escape_char :: "char \<Rightarrow> string" where
  \<open>escape_char c =
     (if c = CHR ''&'' then ''&amp;''
      else if c = CHR ''<'' then ''&lt;''
      else if c = CHR ''>'' then ''&gt;''
      else if c = CHR 0x22 then ''&quot;''
      else if c = CHR 0x27 then ''&#x27;''
      else [c])\<close>

definition html_escape :: "string \<Rightarrow> string" where
  "html_escape s = concat (map escape_char s)"

text \<open>\<open>s.replace(old, new, 1)\<close>: only the leftmost occurrence is replaced.\<close>

fun replace_first :: "string \<Rightarrow> string \<Rightarrow> string \<Rightarrow> string" where
  "replace_first old new [] = (if old = [] then new else [])"
| "replace_first old new (c # cs) =
     (if startswith (c # cs) old then new @ drop (length old) (c # cs)
      else c # replace_first old new cs)"

text \<open>\<open>str(n)\<close> for a non-negative integer.\<close>

definition digit_char :: "nat \<Rightarrow> char" where
  "digit_char d =
     (if d = 0 then CHR ''0'' else if d = 1 then CHR ''1'' else if d = 2 then CHR ''2''
      else if d = 3 then CHR ''3'' else if d = 4 then CHR ''4'' else if d = 5 then CHR ''5''
      else if d = 6 then CHR ''6'' else if d = 7 then CHR ''7'' else if d = 8 then CHR ''8''
      else CHR ''9'')"

fun str_nat :: "nat \<Rightarrow> string" where
  "str_nat n = (if n < 10 then [digit_char n] else str_nat (n div 10) @ [digit_char (n mod 10)])"

declare str_nat.simps [simp del]

definition anchor_id :: "nat \<Rightarrow> string" where
  "anchor_id i = ''source-card-'' @ str_nat i"

definition anchor_link :: "nat \<Rightarrow> link_info \<Rightarrow> string" where
  \<open>anchor_link i link =
     ''<a href="#'' @ anchor_id i @ ''" onclick="document.getElementById('' @ [CHR 0x27]
       @ anchor_id i @ [CHR 0x27] @ '').scrollIntoView({behavior: '' @ [CHR 0x27] @ ''smooth''
       @ [CHR 0x27] @ ''}); return false;">'' @ html_escape (link_text link) @ ''</a>''\<close>

text \<open>The icon of a card, as the UTF-8 code units of the source's literal.\<close>

definition card_icon :: string where
  "card_icon = [CHR 0xC3, CHR 0xB0, CHR 0xC5, CHR 0xB8, CHR 0xE2, CHR 0x80, CHR 0x9C,
                CHR 0xE2, CHR 0x80, CHR 0x9E]"

definition card_html :: "nat \<Rightarrow> link_info \<Rightarrow> string" where
  \<open>card_html i link =
     ''<div class="source-card" id="'' @ anchor_id i @ ''"><div class="card-icon">''
       @ card_icon @ ''</div><div class="card-title">'' @ html_escape (filename link)
       @ ''</div><a href="'' @ html_escape (url link)
       @ ''" class="card-link" target="_blank">Download</a></div>''\<close>

text \<open>The two \<open>for i, link_info in enumerate(links_info)\<close> loops of \<open>bot\<close>.\<close>

fun replace_links :: "nat \<Rightarrow> link_info list \<Rightarrow> string \<Rightarrow> string" where
  "replace_links i [] updated_message = updated_message"
| "replace_links i (link # rest) updated_message =
     replace_links (Suc i) rest
       (replace_first (original_link link) (anchor_link i link) updated_message)"

fun cards_loop :: "nat \<Rightarrow> link_info list \<Rightarrow> string list \<Rightarrow> string list" where
  "cards_loop i [] cards_components = cards_components"
| "cards_loop i (link # rest) cards_components =
     cards_loop (Suc i) rest (cards_components @ [card_html i link])"

definition cards_html :: "string list \<Rightarrow> string" where
  \<open>cards_html cards_components =
     [CHR 0x0A, CHR 0x0A] @ ''<div class="source-cards-container">''
       @ concat cards_components @ ''</div>''\<close>

text \<open>The new content of the assistant entry when \<open>links_info\<close> is not empty.\<close>

definition rewrite_message :: "link_info list \<Rightarrow> string \<Rightarrow> string" where
  "rewrite_message links_info final_message =
     replace_links 0 links_info final_message @ cards_html (cards_loop 0 links_info [])"

section \<open>The agent client\<close>

text \<open>
  The hosted agent service as one call of \<open>send_message_streaming\<close> sees it: the outcome
  of each request the call can make (each is made at most once).  A thread and an agent
  are represented by their ids; \<open>messages_list\<close> gives the messages the asynchronous
  iterator yields and the exception, if any, that ends the iteration.
\<close>

record agent_message =
  msg_role :: string
  text_messages :: "string list"

record run =
  status :: string
  last_error :: string

record backend =
  threads_create :: "exn + string"
  messages_create :: "string \<Rightarrow> string \<Rightarrow> exn option"
  get_agent :: "string \<Rightarrow> exn + string"
  create_and_process :: "string \<Rightarrow> string \<Rightarrow> exn + run"
  messages_list :: "string \<Rightarrow> agent_message list \<times> exn option"

record azure_client =
  agent_id :: string
  current_thread :: "string option"
  cached_agent :: "string option"

text \<open>
  What the consumer of an asynchronous generator observes: the chunks yielded, in order,
  and then either normal completion (\<open>None\<close>) or an exception raised out of the
  generator.
\<close>

record stream =
  chunks :: "string list"
  failure :: "exn option"

definition str_exn :: "exn \<Rightarrow> string" where
  "str_exn e = (case e of Exception m \<Rightarrow> m)"

definition DEFAULT_AGENT_ID :: string where
  "DEFAULT_AGENT_ID = ''asst_Npta2BcwtSASqC4SLTHSsQUZ''"

text \<open>\<open>_get_agent\<close>: fetched once, then cached; a failure is logged and raised again.\<close>

definition get_agent_cached :: "backend \<Rightarrow> azure_client \<Rightarrow> (exn + string) \<times> azure_client" where
  "get_agent_cached be client =
     (case cached_agent client of
        Some a \<Rightarrow> (Inr a, client)
      | None \<Rightarrow>
          (case get_agent be (agent_id client) of
             Inl e \<Rightarrow> (Inl e, client)
           | Inr a \<Rightarrow> (Inr a, client\<lparr>cached_agent := Some a\<rparr>)))"

fun latest_response_loop :: "agent_message list \<Rightarrow> string option \<Rightarrow> string option" where
  "latest_response_loop [] latest_response = latest_response"
| "latest_response_loop (msg # rest) latest_response =
     latest_response_loop rest
       (if msg_role msg = ''assistant'' \<and> text_messages msg \<noteq> []
        then Some (last (text_messages msg))
        else latest_response)"

definition one_chunk :: "string \<Rightarrow> stream" where
  "one_chunk c = \<lparr>chunks = [c], failure = None\<rparr>"

text \<open>The handler of the \<open>try\<close> block of \<open>send_message_streaming\<close>.\<close>

definition caught :: "exn \<Rightarrow> stream" where
  "caught e =
     one_chunk (''Sorry, I encountered an error while processing your request: '' @ str_exn e)"

definition no_response :: stream where
  "no_response = one_chunk (''I'' @ [CHR 0x27] @ ''m sorry, I didn'' @ [CHR 0x27]
                             @ ''t receive a proper response. Please try again.'')"

text \<open>The \<open>try\<close> block of \<open>send_message_streaming\<close>, once the thread id is known.\<close>

definition stream_try ::
  "backend \<Rightarrow> azure_client \<Rightarrow> string \<Rightarrow> string \<Rightarrow> stream \<times> azure_client" where
  "stream_try be client target_thread_id content_text =
     (case messages_create be target_thread_id content_text of
        Some e \<Rightarrow> (caught e, client)
      | None \<Rightarrow>
          (case get_agent_cached be client of
             (Inl e, client') \<Rightarrow> (caught e, client')
           | (Inr agent, client') \<Rightarrow>
               (case create_and_process be target_thread_id agent of
                  Inl e \<Rightarrow> (caught e, client')
                | Inr r \<Rightarrow>
                    if status r = ''failed'' then
                      (one_chunk (''Sorry, I encountered an error while processing your request: ''
                                  @ last_error r), client')
                    else
                      (case messages_list be target_thread_id of
                         (msgs, Some e) \<Rightarrow> (caught e, client')
                       | (msgs, None) \<Rightarrow>
                           (case latest_response_loop msgs None of
                              None \<Rightarrow> (no_response, client')
                            | Some latest_response \<Rightarrow>
                                if latest_response \<noteq> []
                                then (one_chunk latest_response, client')
                                else (no_response, client'))))))"

text \<open>
  \<open>AzureAgentClient.send_message_streaming(content, thread_id)\<close>.  The thread is created
  before the \<open>try\<close> block, so an exception of \<open>create_new_conversation\<close> leaves the
  generator without a chunk.
\<close>

definition send_message_streaming ::
  "backend \<Rightarrow> azure_client \<Rightarrow> string \<Rightarrow> string option \<Rightarrow> stream \<times> azure_client" where
  "send_message_streaming be client content_text thread_id =
     (case (if thread_id = Some [] then None else thread_id) of
        Some tid \<Rightarrow> stream_try be client tid content_text
      | None \<Rightarrow>
          (case current_thread client of
             Some tid \<Rightarrow> stream_try be client tid content_text
           | None \<Rightarrow>
               (case threads_create be of
                  Inl e \<Rightarrow> (\<lparr>chunks = [], failure = Some e\<rparr>, client)
                | Inr tid \<Rightarrow>
                    (let client' = client\<lparr>current_thread := Some tid\<rparr> in
                     if tid = [] then
                       (one_chunk (''Sorry, I couldn'' @ [CHR 0x27]
                                   @ ''t start a new conversation. Please try again.''), client')
                     else stream_try be client' tid content_text))))"

text \<open>
  \<open>send_message_to_agent_streaming(content)\<close> with \<open>get_azure_client\<close>: the global client
  is created on first use and every chunk of its generator is passed on.
\<close>

definition send_message_to_agent_streaming ::
  "backend \<Rightarrow> azure_client option \<Rightarrow> string \<Rightarrow> stream \<times> azure_client option" where
  "send_message_to_agent_streaming be global_client content_text =
     (let client = (case global_client of
                      None \<Rightarrow> \<lparr>agent_id = DEFAULT_AGENT_ID, current_thread = None,
                                cached_agent = None\<rparr>
                    | Some c \<Rightarrow> c)
      in case send_message_streaming be client content_text None of
           (s, client') \<Rightarrow> (s, Some client'))"

section \<open>The turn controller\<close>

record chat_message =
  role :: string
  content :: string

definition user :: "string \<Rightarrow> chat_message list \<Rightarrow> string \<times> chat_message list" where
  "user user_message history = ([], history @ [\<lparr>role = ''user'', content = user_message\<rparr>])"

text \<open>\<open>history[-1]["content"] = c\<close> on a non-empty history.\<close>

definition set_last_content :: "chat_message list \<Rightarrow> string \<Rightarrow> chat_message list" where
  "set_last_content history c = butlast history @ [(last history)\<lparr>content := c\<rparr>]"

text \<open>
  The \<open>async for chunk\<close> loop: each chunk is appended to the last entry and the history is
  published.  The result is the history after the loop and the snapshots published.
\<close>

fun stream_loop ::
  "chat_message list \<Rightarrow> string list \<Rightarrow> chat_message list \<times> chat_message list list" where
  "stream_loop history [] = (history, [])"
| "stream_loop history (chunk # rest) =
     (let history' = set_last_content history (content (last history) @ chunk)
      in case stream_loop history' rest of
           (final, published) \<Rightarrow> (final, history' # published))"

definition error_msg :: string where
  "error_msg = ''Sorry, I encountered an error while processing your request. Please try again.''"

text \<open>
  The \<open>try\<close> block of \<open>bot\<close>: the history it leaves, the snapshots it published, and the
  exception that ended it, if any.  \<open>extract\<close> is the extraction stage; it is a parameter
  with a fallible result so that an exception of the rewrite pipeline is a branch of the
  model.
\<close>

definition bot_try ::
  "(string \<Rightarrow> exn + link_info list) \<Rightarrow> stream \<Rightarrow> chat_message list \<Rightarrow>
   chat_message list \<times> chat_message list list \<times> exn option" where
  "bot_try extract response history =
     (case stream_loop history (chunks response) of
        (h1, published1) \<Rightarrow>
          (case failure response of
             Some e \<Rightarrow> (h1, published1, Some e)
           | None \<Rightarrow>
               (let final_message = content (last h1) in
                case extract final_message of
                  Inl e \<Rightarrow> (h1, published1, Some e)
                | Inr links_info \<Rightarrow>
                    if links_info \<noteq> [] then
                      (let h2 = set_last_content h1 (rewrite_message links_info final_message)
                       in (h2, published1 @ [h2], None))
                    else (h1, published1, None))))"

record turn =
  final_history :: "chat_message list"
  published :: "chat_message list list"
  uncaught :: "exn option"

text \<open>
  One run of the generator \<open>bot(history)\<close> for a given response stream.  Reading
  \<open>history[-1]\<close> of an empty history raises before the \<open>try\<close> block is entered.
\<close>

definition bot_turn ::
  "(string \<Rightarrow> exn + link_info list) \<Rightarrow> stream \<Rightarrow> chat_message list \<Rightarrow> turn" where
  "bot_turn extract response history0 =
     (if history0 = [] then
        \<lparr>final_history = [], published = [],
          uncaught = Some (Exception ''list index out of range'')\<rparr>
      else
        (let history = history0 @ [\<lparr>role = ''assistant'', content = []\<rparr>] in
         case bot_try extract response history of
           (h, pub, None) \<Rightarrow> \<lparr>final_history = h, published = pub, uncaught = None\<rparr>
         | (h, pub, Some e) \<Rightarrow>
             (let h' = set_last_content h error_msg
              in \<lparr>final_history = h', published = pub @ [h'], uncaught = None\<rparr>)))"

text \<open>\<open>bot(history)\<close> with the agent client and the link pipeline of this repository.\<close>

definition bot ::
  "(string \<Rightarrow> string \<Rightarrow> int) \<Rightarrow> (string \<Rightarrow> string) \<Rightarrow> filesystem \<Rightarrow> backend \<Rightarrow>
   azure_client option \<Rightarrow> chat_message list \<Rightarrow> turn" where
  "bot score decode fs be global_client history =
     bot_turn (\<lambda>t. Inr (extract_markdown_links score decode fs t))
       (fst (send_message_to_agent_streaming be global_client (content (last history))))
       history"

text \<open>
  The rewriting stage of \<open>bot\<close> on its own: the content it leaves in the assistant entry
  for a final message, with the extractor of this repository.
\<close>

definition rewrite_pass ::
  "(string \<Rightarrow> string \<Rightarrow> int) \<Rightarrow> (string \<Rightarrow> string) \<Rightarrow> filesystem \<Rightarrow> string \<Rightarrow> string" where
  "rewrite_pass score decode fs final_message =
     (let links_info = extract_markdown_links score decode fs final_message
      in if links_info \<noteq> [] then rewrite_message links_info final_message
         else final_message)"

section \<open>Auxiliary notions for the proofs\<close>

text \<open>
  The strings \<open>xs\<close> occur in \<open>s\<close> one after the other, without overlapping; and the
  markdown \<open>[text](url)\<close> of a match of the link pattern.
\<close>

fun occurs_in_order :: "string \<Rightarrow> string list \<Rightarrow> bool" where
  "occurs_in_order s [] = True"
| "occurs_in_order s (x # xs) = (\<exists>gap rest. s = gap @ x @ rest \<and> occurs_in_order rest xs)"

definition markdown_of :: "string \<times> string \<Rightarrow> string" where
  "markdown_of m = ''['' @ fst m @ '']('' @ snd m @ '')''"

text \<open>
  The user-facing error texts that \<open>send_message_streaming\<close> yields: the two fixed
  ones, and the one that ends with the text of a failure.
\<close>

definition is_error_text :: "string \<Rightarrow> bool" where
  "is_error_text c =
     (c = ''Sorry, I couldn'' @ [CHR 0x27] @ ''t start a new conversation. Please try again.''
      \<or> c = ''I'' @ [CHR 0x27] @ ''m sorry, I didn'' @ [CHR 0x27]
             @ ''t receive a proper response. Please try again.''
      \<or> startswith c ''Sorry, I encountered an error while processing your request: '')"

text \<open>
  The test by which \<open>extract_markdown_links\<close> skips a link.
\<close>

definition external :: "string \<Rightarrow> bool" where
  "external u = (startswith u ''http://'' \<or> startswith u ''https://'')"

text \<open>
  A message cut at the matches of the link pattern: one piece for each match and one for
  each character outside the matches.  \<open>pieces_from\<close> follows \<open>findall_from\<close> step
  by step; \<open>original_text\<close> is the text a piece stands for and \<open>links_of\<close> are the
  matches among the pieces.
\<close>

datatype piece = Gap char | Link string string

fun pieces_from :: "nat \<Rightarrow> string \<Rightarrow> piece list" where
  "pieces_from skip [] = []"
| "pieces_from skip (c # cs) =
     (if 0 < skip then pieces_from (skip - 1) cs
      else (case match_at (c # cs) of
              None \<Rightarrow> Gap c # pieces_from 0 cs
            | Some (t, u) \<Rightarrow> Link t u # pieces_from (length t + length u + 3) cs))"

definition pieces :: "string \<Rightarrow> piece list" where
  "pieces s = pieces_from 0 s"

fun original_text :: "piece \<Rightarrow> string" where
  "original_text (Gap c) = [c]"
| "original_text (Link t u) = markdown_of (t, u)"

fun links_of :: "piece list \<Rightarrow> (string \<times> string) list" where
  "links_of [] = []"
| "links_of (Gap c # ps) = links_of ps"
| "links_of (Link t u # ps) = (t, u) # links_of ps"

text \<open>
  The two characters \<open>](\<close> occur in a string.  A message has \<open>separators_only\<close>
  when every \<open>](\<close> in it is the one of a match of the link pattern or lies in the target
  of a match that is not external: no two neighbouring characters outside the matches form
  it, and no external target contains it.
\<close>

fun has_separator :: "string \<Rightarrow> bool" where
  "has_separator (a # b # cs) = ((a = CHR '']'' \<and> b = CHR ''('') \<or> has_separator (b # cs))"
| "has_separator cs = False"

fun separated :: "piece list \<Rightarrow> bool" where
  "separated [] = True"
| "separated (Gap c # ps) =
     ((case ps of
         Gap d # rest \<Rightarrow> \<not> (c = CHR '']'' \<and> d = CHR ''('')
       | _ \<Rightarrow> True)
      \<and> separated ps)"
| "separated (Link t u # ps) = ((external u \<longrightarrow> \<not> has_separator u) \<and> separated ps)"

definition separators_only :: "string \<Rightarrow> bool" where
  "separators_only s = separated (pieces s)"

text \<open>
  The message with every match that is not external replaced, where it stands, by the
  anchor of the record of the same rank (\<open>i\<close> is the rank of the first record of
  \<open>links\<close>); every other piece is copied.
\<close>

fun in_place :: "nat \<Rightarrow> link_info list \<Rightarrow> piece list \<Rightarrow> string" where
  "in_place i links [] = []"
| "in_place i links (Gap c # ps) = c # in_place i links ps"
| "in_place i links (Link t u # ps) =
     (if external u then markdown_of (t, u) @ in_place i links ps
      else (case links of
              [] \<Rightarrow> markdown_of (t, u) @ in_place i links ps
            | link # rest \<Rightarrow> anchor_link i link @ in_place (Suc i) rest ps))"

text \<open>
  Every \<open>](\<close> of a string is followed by an external target and its closing
  parenthesis.
\<close>

definition only_external_separators :: "string \<Rightarrow> bool" where
  "only_external_separators z =
     (\<forall>pre post. z = pre @ '']('' @ post \<longrightarrow>
        (\<exists>w rest. post = w @ '')'' @ rest \<and> CHR '')'' \<notin> set w \<and> external w))"

section \<open>Sample data for the closed instances\<close>

text \<open>
  A small similarity function and inventory, used only where a statement below is
  instantiated at concrete values.
\<close>

definition demo_score :: "string \<Rightarrow> string \<Rightarrow> int" where
  "demo_score query choice =
     (if query = choice then 100
      else if startswith choice query then 86
      else if startswith query choice then 60
      else 0)"

definition demo_inventory :: "file_info list" where
  "demo_inventory =
     [\<lparr>path = ''public/files/a/report_final.pdf'', name_without_ext = ''report_final'',
       full_name = ''report_final.pdf''\<rparr>,
      \<lparr>path = ''public/files/b/report_final.docx'', name_without_ext = ''report_final'',
       full_name = ''report_final.docx''\<rparr>,
      \<lparr>path = ''public/files/rep.txt'', name_without_ext = ''rep'',
       full_name = ''rep.txt''\<rparr>]"

definition fs_missing :: filesystem where
  "fs_missing = \<lparr>fs_exists = (\<lambda>d. Inr False), fs_rglob = (\<lambda>d. ([], None)),
                  fs_is_file = (\<lambda>p. Inr False)\<rparr>"

definition fs_only_directories :: filesystem where
  "fs_only_directories =
     \<lparr>fs_exists = (\<lambda>d. Inr True),
      fs_rglob = (\<lambda>d. ([''public/files/a'', ''public/files/a/b''], None)),
      fs_is_file = (\<lambda>p. Inr False)\<rparr>"

definition fs_unreadable :: filesystem where
  "fs_unreadable =
     \<lparr>fs_exists = (\<lambda>d. Inr True),
      fs_rglob = (\<lambda>d. ([''public/files/a.pdf'', ''public/files/b.pdf''], None)),
      fs_is_file = (\<lambda>p. if p = ''public/files/b.pdf''
                          then Inl (Exception ''Input/output error'') else Inr True)\<rparr>"

definition partial_response :: stream where
  "partial_response = \<lparr>chunks = [''The report is in ''], failure = Some (Exception ''connection reset'')\<rparr>"

definition demo_history :: "chat_message list" where
  "demo_history = [\<lparr>role = ''user'', content = ''Where is the report?''\<rparr>]"

definition backend_ok :: backend where
  "backend_ok =
     \<lparr>threads_create = Inr ''thread_1'',
      messages_create = (\<lambda>tid c. None),
      get_agent = (\<lambda>a. Inr a),
      create_and_process = (\<lambda>tid a. Inr \<lparr>status = ''completed'', last_error = []\<rparr>),
      messages_list = (\<lambda>tid. ([\<lparr>msg_role = ''user'', text_messages = [''Where is the report?'']\<rparr>,
                                 \<lparr>msg_role = ''assistant'',
                                   text_messages = [''Check [this](report.pdf)'']\<rparr>], None))\<rparr>"

definition backend_run_failed :: backend where
  "backend_run_failed =
     backend_ok\<lparr>create_and_process :=
                  (\<lambda>tid a. Inr \<lparr>status = ''failed'', last_error = ''rate_limit_exceeded''\<rparr>)\<rparr>"

definition backend_no_thread :: backend where
  "backend_no_thread = backend_ok\<lparr>threads_create := Inl (Exception ''service unavailable'')\<rparr>"

definition new_client :: azure_client where
  "new_client = \<lparr>agent_id = DEFAULT_AGENT_ID, current_thread = None, cached_agent = None\<rparr>"

definition fs_demo :: filesystem where
  "fs_demo =
     \<lparr>fs_exists = (\<lambda>d. Inr True),
      fs_rglob = (\<lambda>d. ([''public/files/a'', ''public/files/a/report_final.pdf'',
                         ''public/files/b'', ''public/files/b/report_final.docx'',
                         ''public/files/rep.txt''], None)),
      fs_is_file = (\<lambda>p. Inr (p \<notin> {''public/files/a'', ''public/files/b''}))\<rparr>"

definition plain_decode :: "string \<Rightarrow> string" where
  "plain_decode bytes = bytes"

definition duplicate_links :: "link_info list" where
  "duplicate_links =
     [\<lparr>filename = ''a'', url = ''b'', original_link = ''[a](b)'', link_text = ''a'',
       fuzzy_matched = False\<rparr>,
      \<lparr>filename = ''a'', url = ''b'', original_link = ''[a](b)'', link_text = ''a'',
       fuzzy_matched = False\<rparr>]"






section \<open>Properties of the fuzzy link resolver\<close>

lemma best_of_ge: "y \<in> set (b # xs) \<Longrightarrow> snd y \<le> snd (best_of b xs)"
proof (induction xs arbitrary: b y)
  case Nil
  then show ?case by simp
next
  case (Cons x xs)
  define b' where "b' = (if snd b < snd x then x else b)"
  have IH: "snd z \<le> snd (best_of b' xs)" if "z \<in> set (b' # xs)" for z
    using Cons.IH that by blast
  have r: "best_of b (x # xs) = best_of b' xs" by (simp add: b'_def)
  have a: "snd b' \<le> snd (best_of b' xs)" by (rule IH) simp
  from Cons.prems consider "y = b" | "y = x" | "y \<in> set xs" by auto
  then show ?case
  proof cases
    case 1
    then show ?thesis using a unfolding r by (simp add: b'_def split: if_splits)
  next
    case 2
    then show ?thesis using a unfolding r by (simp add: b'_def split: if_splits)
  next
    case 3
    then show ?thesis unfolding r by (intro IH) simp
  qed
qed

lemma best_of_in: "best_of b xs \<in> set (b # xs)"
proof (induction xs arbitrary: b)
  case Nil
  show ?case by simp
next
  case (Cons x xs)
  show ?case using Cons.IH[of "if snd b < snd x then x else b"]
    by (auto split: if_splits)
qed

lemma best_of_Max: "Max (snd ` set (b # xs)) = snd (best_of b xs)"
proof (rule Max_eqI)
  show "finite (snd ` set (b # xs))" by simp
next
  fix v assume "v \<in> snd ` set (b # xs)"
  then obtain y where "y \<in> set (b # xs)" "v = snd y" by blast
  then show "v \<le> snd (best_of b xs)" using best_of_ge[of y b xs] by simp
next
  show "snd (best_of b xs) \<in> snd ` set (b # xs)"
    using best_of_in[of b xs] by (rule imageI)
qed

lemma best_of_find:
  "find (\<lambda>y. snd y = snd (best_of b xs)) (b # xs) = Some (best_of b xs)"
proof (induction xs arbitrary: b)
  case Nil
  show ?case by simp
next
  case (Cons x xs)
  define b' where "b' = (if snd b < snd x then x else b)"
  define r where "r = best_of b' xs"
  have r: "best_of b (x # xs) = r" by (simp add: r_def b'_def)
  have IH: "find (\<lambda>y. snd y = snd r) (b' # xs) = Some r"
    unfolding r_def by (rule Cons.IH)
  have le: "snd b' \<le> snd r"
    unfolding r_def by (rule best_of_ge) simp
  show ?case
  proof (cases "snd b < snd x")
    case True
    then have "b' = x" by (simp add: b'_def)
    with IH le True show ?thesis unfolding r by simp
  next
    case False
    then have b': "b' = b" by (simp add: b'_def)
    show ?thesis
    proof (cases "snd b = snd r")
      case True
      with IH b' show ?thesis unfolding r by simp
    next
      case F2: False
      with le b' False have "snd x \<noteq> snd r" by simp
      with IH b' F2 show ?thesis unfolding r by simp
    qed
  qed
qed

lemma best_of_first:
  "find (\<lambda>x. snd x = Max (snd ` set (b # xs))) (b # xs) = Some (best_of b xs)"
  unfolding best_of_Max by (rule best_of_find)

lemma find_map_comp: "find P (map f xs) = map_option f (find (\<lambda>x. P (f x)) xs)"
  by (induction xs) auto

lemma index_of_find:
  "find (\<lambda>r. g (nm r) = M) fl = Some r \<Longrightarrow>
   \<exists>i. index_of (nm r) (map nm fl) = Some i \<and> fl ! i = r"
proof (induction fl)
  case Nil
  then show ?case by simp
next
  case (Cons a fl)
  show ?case
  proof (cases "g (nm a) = M")
    case True
    with Cons.prems show ?thesis by simp
  next
    case False
    with Cons.prems have f: "find (\<lambda>r. g (nm r) = M) fl = Some r" by simp
    then have "g (nm r) = M" by (auto simp: find_Some_iff)
    with False have "nm r \<noteq> nm a" by auto
    with Cons.IH[OF f] show ?thesis by auto
  qed
qed

lemma find_Max_Some:
  assumes "fl \<noteq> []"
  shows "\<exists>r. find (\<lambda>r. (sc r :: int) = Max (sc ` set fl)) fl = Some r"
proof -
  have "Max (sc ` set fl) \<in> sc ` set fl" using assms by (intro Max_in) auto
  then obtain r where "r \<in> set fl" "sc r = Max (sc ` set fl)" by auto
  then have "find (\<lambda>r. sc r = Max (sc ` set fl)) fl \<noteq> None"
    by (auto simp: find_None_iff)
  then show ?thesis by auto
qed

lemma find_best_match_eq:
  fixes score fname
  defines "sc \<equiv> entry_score score fname"
  assumes ne: "fl \<noteq> []"
  shows "find_best_match score fname (Some fl) =
         (if 60 < Max (sc ` set fl)
          then map_option path (find (\<lambda>r. sc r = Max (sc ` set fl)) fl)
          else None)"
proof -
  define q where "q = path_stem fname"
  define M where "M = Max (sc ` set fl)"
  define pr where "pr = (\<lambda>c. (c, score q c))"
  define names where "names = map name_without_ext fl"
  have sc: "sc r = score q (name_without_ext r)" for r
    by (simp add: sc_def entry_score_def q_def)
  obtain r where r: "find (\<lambda>r. sc r = M) fl = Some r"
    using find_Max_Some[OF ne] unfolding M_def by blast
  have scr: "sc r = M" using r by (auto simp: find_Some_iff)
  obtain n ns where names: "names = n # ns"
    using ne by (cases fl) (auto simp: names_def)
  have img: "snd ` set (map pr names) = sc ` set fl"
    by (auto simp: sc pr_def names_def image_iff)
  have f1: "find (\<lambda>x. snd x = M) (map pr names) = Some (best_of (pr n) (map pr ns))"
    using best_of_first[of "pr n" "map pr ns"] img
    by (simp only: names list.map M_def)
  have f2: "find (\<lambda>x. snd x = M) (map pr names) = Some (name_without_ext r, M)"
  proof -
    have "find (\<lambda>x. snd x = M) (map pr names)
          = map_option (\<lambda>r. pr (name_without_ext r)) (find (\<lambda>r. sc r = M) fl)"
      by (simp add: names_def find_map_comp pr_def sc comp_def)
    then show ?thesis using r scr by (simp add: pr_def sc)
  qed
  have ex: "extractOne score q names = Some (name_without_ext r, M)"
    using f1 f2 by (simp add: extractOne_def names pr_def)
  from index_of_find[of "score q" name_without_ext M fl r] r
  obtain i where i: "index_of (name_without_ext r) names = Some i" "fl ! i = r"
    unfolding names_def by (auto simp: sc)
  have "find_best_match score fname (Some fl) = (if 60 < M then Some (path r) else None)"
    using ne ex i by (simp add: find_best_match_def Let_def q_def[symmetric] names_def[symmetric])
  then show ?thesis using r by (simp add: M_def)
qed

lemma Max_entry_score_60:
  "(\<exists>p. find_best_match score fname (Some fl) = Some p) =
   (fl \<noteq> [] \<and> 60 < Max (entry_score score fname ` set fl))"
proof (cases "fl = []")
  case True
  then show ?thesis by (simp add: find_best_match_def)
next
  case False
  obtain r where "find (\<lambda>r. entry_score score fname r = Max (entry_score score fname ` set fl)) fl = Some r"
    using find_Max_Some[OF False] by blast
  then show ?thesis using False by (simp add: find_best_match_eq)
qed

text \<open>
  C2.  \<open>find_best_match\<close> returns a path exactly when the inventory is present, is not
  empty and the best similarity score over its entries is strictly greater than 60.  An
  absent inventory and an empty one give \<open>None\<close>, and so does a best score of exactly 60.
\<close>

theorem find_best_match_threshold:
  "((\<exists>p. find_best_match score fname file_list = Some p) =
      (\<exists>fl. file_list = Some fl \<and> fl \<noteq> [] \<and> 60 < Max (entry_score score fname ` set fl)))
   \<and> find_best_match score fname None = None
   \<and> find_best_match score fname (Some []) = None
   \<and> (\<forall>fl. fl \<noteq> [] \<and> Max (entry_score score fname ` set fl) = 60
          \<longrightarrow> find_best_match score fname (Some fl) = None)"
proof (intro conjI allI impI)
  show "(\<exists>p. find_best_match score fname file_list = Some p) =
      (\<exists>fl. file_list = Some fl \<and> fl \<noteq> [] \<and> 60 < Max (entry_score score fname ` set fl))"
  proof (cases file_list)
    case None
    then show ?thesis by (simp add: find_best_match_def)
  next
    case (Some fl)
    then show ?thesis using Max_entry_score_60[of score fname fl] by simp
  qed
next
  show "find_best_match score fname None = None" by (simp add: find_best_match_def)
next
  show "find_best_match score fname (Some []) = None" by (simp add: find_best_match_def)
next
  fix fl assume "fl \<noteq> [] \<and> Max (entry_score score fname ` set fl) = 60"
  then show "find_best_match score fname (Some fl) = None"
    by (simp add: find_best_match_eq)
qed

lemma demo_scores:
  "entry_score demo_score ''report.pdf'' ` set demo_inventory = {86, 60}"
  "entry_score demo_score ''report_final.pdf'' ` set demo_inventory = {100, 60}"
  "entry_score demo_score ''rep x.pdf'' ` set demo_inventory = {0, 60}"
  "entry_score demo_score ''zzz.pdf'' ` set demo_inventory = {0}"
  by (auto simp: entry_score_def demo_score_def demo_inventory_def path_stem_def path_name_def rfind_def)

text \<open>The statement of C2 at the sample inventory: a best score of 86 and one of 60.\<close>

theorem find_best_match_threshold_witness:
  "(\<exists>p. find_best_match demo_score ''report.pdf'' (Some demo_inventory) = Some p)
   \<and> find_best_match demo_score ''rep x.pdf'' (Some demo_inventory) = None
   \<and> find_best_match demo_score ''report.pdf'' None = None
   \<and> find_best_match demo_score ''report.pdf'' (Some []) = None"
proof -
  have ne: "demo_inventory \<noteq> []" by (simp add: demo_inventory_def)
  have a: "60 < Max (entry_score demo_score ''report.pdf'' ` set demo_inventory)"
    by (simp add: demo_scores)
  have b: "Max (entry_score demo_score ''rep x.pdf'' ` set demo_inventory) = 60"
    by (simp add: demo_scores)
  show ?thesis
    using find_best_match_threshold[of demo_score "''report.pdf''" "Some demo_inventory"]
          find_best_match_threshold[of demo_score "''rep x.pdf''" "Some demo_inventory"]
          ne a b
    by simp
qed








section \<open>Properties of the file inventory scanner\<close>

lemma scan_loop_no_files:
  "\<forall>p\<in>set entries. fs_is_file fs p = Inr False \<Longrightarrow> scan_loop fs entries acc = Inr acc"
  by (induction entries arbitrary: acc) auto

lemma scan_loop_error:
  "p \<in> set entries \<Longrightarrow> fs_is_file fs p = Inl e \<Longrightarrow> \<exists>e'. scan_loop fs entries acc = Inl e'"
proof (induction entries arbitrary: acc)
  case Nil
  then show ?case by simp
next
  case (Cons q entries)
  show ?case
  proof (cases "fs_is_file fs q")
    case (Inl e0)
    then show ?thesis by simp
  next
    case (Inr b)
    with Cons.prems have "p \<in> set entries" by auto
    from Cons.IH[OF this Cons.prems(2)] Inr show ?thesis
      by (auto split: sum.splits bool.splits)
  qed
qed

text \<open>
  C8.  \<open>scan_files_directory\<close> hands every exception of its body to its own handler and
  returns \<open>None\<close> there, so nothing is raised to the caller: a directory that does not
  exist, a walk that finds no regular file, and an error of \<open>exists\<close>, of the recursive
  walk or of \<open>is_file\<close> all give the absent inventory.  The file system it returns is the
  one it was given.
\<close>

theorem scan_files_directory_degrades:
  "snd (scan_files_directory fs d) = fs
   \<and> (fs_exists fs d = Inr False \<longrightarrow> fst (scan_files_directory fs d) = None)
   \<and> (fs_exists fs d = Inr True \<and> snd (fs_rglob fs d) = None
        \<and> (\<forall>p\<in>set (fst (fs_rglob fs d)). fs_is_file fs p = Inr False)
        \<longrightarrow> fst (scan_files_directory fs d) = None)
   \<and> ((\<exists>e. fs_exists fs d = Inl e) \<longrightarrow> fst (scan_files_directory fs d) = None)
   \<and> (fs_exists fs d = Inr True \<and> (\<exists>e. snd (fs_rglob fs d) = Some e)
        \<longrightarrow> fst (scan_files_directory fs d) = None)
   \<and> (fs_exists fs d = Inr True \<and> (\<exists>p\<in>set (fst (fs_rglob fs d)). \<exists>e. fs_is_file fs p = Inl e)
        \<longrightarrow> fst (scan_files_directory fs d) = None)
   \<and> ((\<exists>e. scan_body fs d = Inl e) \<longrightarrow> fst (scan_files_directory fs d) = None)"
proof (intro conjI impI)
  show "snd (scan_files_directory fs d) = fs"
    by (simp add: scan_files_directory_def split: sum.splits)
next
  assume "fs_exists fs d = Inr False"
  then show "fst (scan_files_directory fs d) = None"
    by (simp add: scan_files_directory_def scan_body_def)
next
  assume a: "fs_exists fs d = Inr True \<and> snd (fs_rglob fs d) = None
        \<and> (\<forall>p\<in>set (fst (fs_rglob fs d)). fs_is_file fs p = Inr False)"
  obtain entries stopped where r: "fs_rglob fs d = (entries, stopped)" by (cases "fs_rglob fs d")
  with a have "scan_loop fs entries [] = Inr []" by (simp add: scan_loop_no_files)
  with a r show "fst (scan_files_directory fs d) = None"
    by (simp add: scan_files_directory_def scan_body_def)
next
  assume "\<exists>e. fs_exists fs d = Inl e"
  then show "fst (scan_files_directory fs d) = None"
    by (auto simp: scan_files_directory_def scan_body_def)
next
  assume a: "fs_exists fs d = Inr True \<and> (\<exists>e. snd (fs_rglob fs d) = Some e)"
  obtain entries stopped where r: "fs_rglob fs d = (entries, stopped)" by (cases "fs_rglob fs d")
  with a show "fst (scan_files_directory fs d) = None"
    by (auto simp: scan_files_directory_def scan_body_def split: sum.splits)
next
  assume a: "fs_exists fs d = Inr True \<and> (\<exists>p\<in>set (fst (fs_rglob fs d)). \<exists>e. fs_is_file fs p = Inl e)"
  obtain entries stopped where r: "fs_rglob fs d = (entries, stopped)" by (cases "fs_rglob fs d")
  with a obtain p e where "p \<in> set entries" "fs_is_file fs p = Inl e" by auto
  then obtain e' where "scan_loop fs entries [] = Inl e'" using scan_loop_error by blast
  with a r show "fst (scan_files_directory fs d) = None"
    by (simp add: scan_files_directory_def scan_body_def)
next
  assume "\<exists>e. scan_body fs d = Inl e"
  then show "fst (scan_files_directory fs d) = None"
    by (auto simp: scan_files_directory_def)
qed

text \<open>
  C8 at three sample file systems: a missing directory, a tree of directories only, and
  a file whose \<open>is_file\<close> fails with an I/O error.
\<close>

theorem scan_files_directory_degrades_witness:
  "scan_files_directory fs_missing ''public/files/'' = (None, fs_missing)
   \<and> scan_files_directory fs_only_directories ''public/files/'' = (None, fs_only_directories)
   \<and> scan_files_directory fs_unreadable ''public/files/'' = (None, fs_unreadable)"
proof -
  have a: "fs_exists fs_missing ''public/files/'' = Inr False" by (simp add: fs_missing_def)
  have b: "fs_exists fs_only_directories ''public/files/'' = Inr True
           \<and> snd (fs_rglob fs_only_directories ''public/files/'') = None
           \<and> (\<forall>p\<in>set (fst (fs_rglob fs_only_directories ''public/files/'')).
                  fs_is_file fs_only_directories p = Inr False)"
    by (simp add: fs_only_directories_def)
  have c: "fs_exists fs_unreadable ''public/files/'' = Inr True
           \<and> (\<exists>p\<in>set (fst (fs_rglob fs_unreadable ''public/files/'')).
                  \<exists>e. fs_is_file fs_unreadable p = Inl e)"
    by (simp add: fs_unreadable_def)
  show ?thesis
    using a b c
      scan_files_directory_degrades[of fs_missing "''public/files/''"]
      scan_files_directory_degrades[of fs_only_directories "''public/files/''"]
      scan_files_directory_degrades[of fs_unreadable "''public/files/''"]
    by (simp add: prod_eq_iff)
qed

section \<open>Properties of the turn controller\<close>

lemma set_last_content_snoc [simp]:
  "set_last_content (h @ [m]) c = h @ [m\<lparr>content := c\<rparr>]"
  by (simp add: set_last_content_def)

lemma stream_loop_snoc:
  "fst (stream_loop (h @ [m]) cs) = h @ [m\<lparr>content := content m @ concat cs\<rparr>]
   \<and> length (snd (stream_loop (h @ [m]) cs)) = length cs
   \<and> (\<forall>k<length cs. snd (stream_loop (h @ [m]) cs) ! k
          = h @ [m\<lparr>content := content m @ concat (take (Suc k) cs)\<rparr>])"
proof (induction cs arbitrary: m)
  case Nil
  show ?case by simp
next
  case (Cons c cs)
  let ?m' = "m\<lparr>content := content m @ c\<rparr>"
  note IH = Cons.IH[of ?m']
  have step: "stream_loop (h @ [m]) (c # cs)
      = (fst (stream_loop (h @ [?m']) cs), (h @ [?m']) # snd (stream_loop (h @ [?m']) cs))"
    by (simp add: Let_def split: prod.splits)
  show ?case
  proof (intro conjI allI impI)
    show "fst (stream_loop (h @ [m]) (c # cs)) = h @ [m\<lparr>content := content m @ concat (c # cs)\<rparr>]"
      using IH unfolding step by simp
    show "length (snd (stream_loop (h @ [m]) (c # cs))) = length (c # cs)"
      using IH unfolding step by simp
    fix k assume k: "k < length (c # cs)"
    show "snd (stream_loop (h @ [m]) (c # cs)) ! k
          = h @ [m\<lparr>content := content m @ concat (take (Suc k) (c # cs))\<rparr>]"
    proof (cases k)
      case 0
      then show ?thesis unfolding step by simp
    next
      case (Suc j)
      with k have "j < length cs" by simp
      with IH Suc show ?thesis unfolding step by simp
    qed
  qed
qed

text \<open>
  C7.  When the response stream raises, also after chunks were appended, or the
  extraction stage raises once the stream is complete, the handler of \<open>bot\<close> catches the
  exception (nothing is left uncaught), the assistant entry ends up holding exactly the
  fixed apology, and the turn is published once more after the publications of the
  chunks: one publication per chunk, then the one with the apology.
\<close>

theorem bot_error_replaces_content:
  assumes ne: "history0 \<noteq> []"
      and err: "failure response = Some e
                \<or> (failure response = None \<and> extract (concat (chunks response)) = Inl e)"
  shows "uncaught (bot_turn extract response history0) = None
       \<and> final_history (bot_turn extract response history0)
           = history0 @ [\<lparr>role = ''assistant'', content = error_msg\<rparr>]
       \<and> length (published (bot_turn extract response history0)) = Suc (length (chunks response))
       \<and> (\<forall>k<length (chunks response).
             published (bot_turn extract response history0) ! k
               = history0 @ [\<lparr>role = ''assistant'',
                               content = concat (take (Suc k) (chunks response))\<rparr>])
       \<and> published (bot_turn extract response history0) ! length (chunks response)
           = history0 @ [\<lparr>role = ''assistant'', content = error_msg\<rparr>]"
proof -
  define m where "m = \<lparr>role = ''assistant'', content = []\<rparr>"
  define h1 where "h1 = fst (stream_loop (history0 @ [m]) (chunks response))"
  define p1 where "p1 = snd (stream_loop (history0 @ [m]) (chunks response))"
  have sl: "stream_loop (history0 @ [m]) (chunks response) = (h1, p1)"
    by (simp add: h1_def p1_def)
  have h1: "h1 = history0 @ [\<lparr>role = ''assistant'', content = concat (chunks response)\<rparr>]"
    using stream_loop_snoc[of history0 m "chunks response"] by (simp add: h1_def m_def)
  have lp: "length p1 = length (chunks response)"
    using stream_loop_snoc[of history0 m "chunks response"] by (simp add: p1_def)
  have pk: "\<forall>k<length (chunks response).
              p1 ! k = history0 @ [\<lparr>role = ''assistant'',
                                     content = concat (take (Suc k) (chunks response))\<rparr>]"
    using stream_loop_snoc[of history0 m "chunks response"] by (simp add: p1_def m_def)
  have bt: "bot_try extract response (history0 @ [m]) = (h1, p1, Some e)"
    using err by (auto simp: bot_try_def sl Let_def h1)
  have turn: "bot_turn extract response history0
      = \<lparr>final_history = history0 @ [\<lparr>role = ''assistant'', content = error_msg\<rparr>],
          published = p1 @ [history0 @ [\<lparr>role = ''assistant'', content = error_msg\<rparr>]],
          uncaught = None\<rparr>"
    using ne bt by (simp add: bot_turn_def m_def[symmetric] Let_def h1)
  show ?thesis
    unfolding turn using lp pk by (simp add: nth_append)
qed

text \<open>
  The scenario of the specification: the stream raises after one chunk.
\<close>

theorem bot_error_replaces_content_witness:
  "final_history (bot_turn (\<lambda>t. Inr []) partial_response demo_history)
     = demo_history @ [\<lparr>role = ''assistant'', content = error_msg\<rparr>]
   \<and> published (bot_turn (\<lambda>t. Inr []) partial_response demo_history)
     = [demo_history @ [\<lparr>role = ''assistant'', content = ''The report is in ''\<rparr>],
        demo_history @ [\<lparr>role = ''assistant'', content = error_msg\<rparr>]]"
proof -
  have ne: "demo_history \<noteq> []" by (simp add: demo_history_def)
  have err: "failure partial_response = Some (Exception ''connection reset'')
             \<or> (failure partial_response = None
                 \<and> (\<lambda>t. Inr []) (concat (chunks partial_response)) = Inl (Exception ''connection reset''))"
    by (simp add: partial_response_def)
  have ch: "chunks partial_response = [''The report is in '']" by (simp add: partial_response_def)
  note main = bot_error_replaces_content[of demo_history partial_response "Exception ''connection reset''" "\<lambda>t. Inr []", OF ne err]
  from main have a: "final_history (bot_turn (\<lambda>t. Inr []) partial_response demo_history)
             = demo_history @ [\<lparr>role = ''assistant'', content = error_msg\<rparr>]"
    and b: "length (published (bot_turn (\<lambda>t. Inr []) partial_response demo_history)) = 2"
    and c: "published (bot_turn (\<lambda>t. Inr []) partial_response demo_history) ! 0
             = demo_history @ [\<lparr>role = ''assistant'', content = ''The report is in ''\<rparr>]"
    and d: "published (bot_turn (\<lambda>t. Inr []) partial_response demo_history) ! 1
             = demo_history @ [\<lparr>role = ''assistant'', content = error_msg\<rparr>]"
    by (simp_all add: ch)
  have "published (bot_turn (\<lambda>t. Inr []) partial_response demo_history)
     = [demo_history @ [\<lparr>role = ''assistant'', content = ''The report is in ''\<rparr>],
        demo_history @ [\<lparr>role = ''assistant'', content = error_msg\<rparr>]]"
    using b c d by (intro nth_equalityI) (auto simp: less_Suc_eq numeral_2_eq_2)
  with a show ?thesis by simp
qed

section \<open>Properties of the agent client\<close>

lemma stream_try_one_chunk: "\<exists>c. fst (stream_try be client tid ctext) = one_chunk c"
  by (auto simp: stream_try_def caught_def no_response_def
           split: option.splits sum.splits prod.splits)

lemma one_chunk_sel [simp]: "chunks (one_chunk c) = [c]" "failure (one_chunk c) = None"
  by (simp_all add: one_chunk_def)

lemma sms_existing_thread:
  "current_thread client = Some tid \<Longrightarrow>
   send_message_streaming be client ctext None = stream_try be client tid ctext"
  by (simp add: send_message_streaming_def)

lemma sms_creation_raises:
  "current_thread client = None \<Longrightarrow> threads_create be = Inl e \<Longrightarrow>
   send_message_streaming be client ctext None = (\<lparr>chunks = [], failure = Some e\<rparr>, client)"
  by (simp add: send_message_streaming_def)

lemma sms_created_thread:
  "current_thread client = None \<Longrightarrow> threads_create be = Inr tid \<Longrightarrow> tid \<noteq> [] \<Longrightarrow>
   send_message_streaming be client ctext None
     = stream_try be (client\<lparr>current_thread := Some tid\<rparr>) tid ctext"
  by (simp add: send_message_streaming_def)

lemma sms_created_one_chunk:
  "current_thread client = None \<Longrightarrow> threads_create be = Inr tid \<Longrightarrow>
   \<exists>c. fst (send_message_streaming be client ctext None) = one_chunk c"
  using stream_try_one_chunk[of be "client\<lparr>current_thread := Some tid\<rparr>" tid ctext]
  by (auto simp: send_message_streaming_def Let_def)

lemma latest_response_loop_filter:
  "latest_response_loop msgs acc =
     (case filter (\<lambda>m. msg_role m = ''assistant'' \<and> text_messages m \<noteq> []) msgs of
        [] \<Rightarrow> acc
      | m # ms \<Rightarrow> Some (last (text_messages (last (m # ms)))))"
proof (induction msgs arbitrary: acc)
  case Nil
  show ?case by simp
next
  case (Cons a msgs)
  show ?case
  proof (cases "msg_role a = ''assistant'' \<and> text_messages a \<noteq> []")
    case True
    then show ?thesis
      unfolding latest_response_loop.simps Cons.IH
      by (simp split: list.splits)
  next
    case False
    then show ?thesis
      unfolding latest_response_loop.simps Cons.IH
      by (auto split: list.splits)
  qed
qed

lemma stream_try_cases:
  "fst (stream_try be client tid ctext) =
     (case messages_create be tid ctext of
        Some e \<Rightarrow> caught e
      | None \<Rightarrow>
          (case fst (get_agent_cached be client) of
             Inl e \<Rightarrow> caught e
           | Inr a \<Rightarrow>
               (case create_and_process be tid a of
                  Inl e \<Rightarrow> caught e
                | Inr r \<Rightarrow>
                    if status r = ''failed''
                    then one_chunk (''Sorry, I encountered an error while processing your request: ''
                                    @ last_error r)
                    else (case messages_list be tid of
                            (msgs, Some e) \<Rightarrow> caught e
                          | (msgs, None) \<Rightarrow>
                              (case latest_response_loop msgs None of
                                 None \<Rightarrow> no_response
                               | Some reply \<Rightarrow>
                                   if reply \<noteq> [] then one_chunk reply else no_response)))))"
  by (simp add: stream_try_def split: option.splits sum.splits prod.splits)

lemma startswith_append: "startswith (p @ r) p"
  by (induction p) simp_all

lemma is_error_text_caught: "\<exists>c. is_error_text c \<and> caught e = one_chunk c"
  unfolding caught_def
  by (rule exI[of _ "''Sorry, I encountered an error while processing your request: '' @ str_exn e"])
     (simp add: is_error_text_def startswith_append)

lemma is_error_text_failed:
  "\<exists>c. is_error_text c
      \<and> one_chunk (''Sorry, I encountered an error while processing your request: '' @ m) = one_chunk c"
  by (rule exI[of _ "''Sorry, I encountered an error while processing your request: '' @ m"])
     (simp add: is_error_text_def startswith_append)

lemma is_error_text_no_response: "\<exists>c. is_error_text c \<and> no_response = one_chunk c"
  unfolding no_response_def
  by (rule exI[of _ "''I'' @ [CHR 0x27] @ ''m sorry, I didn'' @ [CHR 0x27]
             @ ''t receive a proper response. Please try again.''"])
     (simp add: is_error_text_def startswith_append)

lemma stream_try_reply_or_error:
  "(\<exists>a r msgs reply.
       messages_create be tid ctext = None \<and> fst (get_agent_cached be client) = Inr a
     \<and> create_and_process be tid a = Inr r \<and> status r \<noteq> ''failed''
     \<and> messages_list be tid = (msgs, None)
     \<and> latest_response_loop msgs None = Some reply \<and> reply \<noteq> []
     \<and> fst (stream_try be client tid ctext) = one_chunk reply)
   \<or> (\<exists>c. is_error_text c \<and> fst (stream_try be client tid ctext) = one_chunk c)"
proof (cases "messages_create be tid ctext")
  case (Some e)
  then have "fst (stream_try be client tid ctext) = caught e" by (simp add: stream_try_cases)
  then show ?thesis using is_error_text_caught[of e] by simp
next
  case None
  show ?thesis
  proof (cases "fst (get_agent_cached be client)")
    case (Inl e)
    with None have "fst (stream_try be client tid ctext) = caught e" by (simp add: stream_try_cases)
    then show ?thesis using is_error_text_caught[of e] by simp
  next
    case (Inr a)
    show ?thesis
    proof (cases "create_and_process be tid a")
      case (Inl e)
      with None Inr have "fst (stream_try be client tid ctext) = caught e"
        by (simp add: stream_try_cases)
      then show ?thesis using is_error_text_caught[of e] by simp
    next
      case R: (Inr r)
      show ?thesis
      proof (cases "status r = ''failed''")
        case True
        with None Inr R have "fst (stream_try be client tid ctext)
            = one_chunk (''Sorry, I encountered an error while processing your request: '' @ last_error r)"
          by (simp add: stream_try_cases)
        then show ?thesis using is_error_text_failed[of "last_error r"] by simp
      next
        case False
        obtain msgs stopped where ml: "messages_list be tid = (msgs, stopped)"
          by (cases "messages_list be tid")
        show ?thesis
        proof (cases stopped)
          case (Some e)
          with None Inr R False ml have "fst (stream_try be client tid ctext) = caught e"
            by (simp add: stream_try_cases)
          then show ?thesis using is_error_text_caught[of e] by simp
        next
          case N: None
          show ?thesis
          proof (cases "latest_response_loop msgs None")
            case None2: None
            have "fst (stream_try be client tid ctext) = no_response"
              using None Inr R False ml N None2 by (simp add: stream_try_cases)
            then show ?thesis using is_error_text_no_response by simp
          next
            case (Some reply)
            show ?thesis
            proof (cases "reply = []")
              case True
              have "fst (stream_try be client tid ctext) = no_response"
                using None Inr R False ml N Some True by (simp add: stream_try_cases)
              then show ?thesis using is_error_text_no_response by simp
            next
              case F2: False
              have "fst (stream_try be client tid ctext) = one_chunk reply"
                using None Inr R False ml N Some F2 by (simp add: stream_try_cases)
              with None Inr R False ml N Some F2 show ?thesis by blast
            qed
          qed
        qed
      qed
    qed
  qed
qed

lemma get_agent_cached_thread:
  "fst (get_agent_cached be (client\<lparr>current_thread := t\<rparr>)) = fst (get_agent_cached be client)"
  by (simp add: get_agent_cached_def split: option.splits sum.splits)

lemma stream_try_thread_update:
  "fst (stream_try be (client\<lparr>current_thread := t\<rparr>) tid ctext) = fst (stream_try be client tid ctext)"
  unfolding stream_try_cases get_agent_cached_thread by (rule refl)

lemma sms_thread:
  assumes "current_thread client = Some tid
           \<or> (current_thread client = None \<and> threads_create be = Inr tid \<and> tid \<noteq> [])"
  shows "fst (send_message_streaming be client ctext None) = fst (stream_try be client tid ctext)"
  using assms
  by (auto simp: sms_existing_thread sms_created_thread stream_try_thread_update)

lemma is_error_text_cannot_start:
  "is_error_text (''Sorry, I couldn'' @ [CHR 0x27] @ ''t start a new conversation. Please try again.'')"
  by (simp add: is_error_text_def)

text \<open>
  C10 (as amended).  A call of \<open>send_message_to_agent_streaming\<close> yields exactly one chunk
  and completes normally, except when a thread has to be created (no client yet, or a
  client without a current thread) and \<open>threads.create\<close> raises: then no chunk is yielded
  and that exception leaves the generator.  When the user message is created, the agent is
  obtained, the run ends with a status other than \<open>failed\<close>, the messages of the thread
  are listed and the last assistant message that has text ends with a non-empty text, the
  one chunk is that text, whole.  On every normally completed call the chunk is that reply
  or one of the error texts.  (\<open>client\<close> is the client the call works with.)
\<close>

theorem streaming_one_chunk_reply_or_error:
  assumes cl: "client = (case global_client of
                           None \<Rightarrow> \<lparr>agent_id = DEFAULT_AGENT_ID, current_thread = None,
                                     cached_agent = None\<rparr>
                         | Some c \<Rightarrow> c)"
  shows
   "(if (global_client = None \<or> (\<exists>c. global_client = Some c \<and> current_thread c = None))
        \<and> (\<exists>e. threads_create be = Inl e)
     then chunks (fst (send_message_to_agent_streaming be global_client ctext)) = []
          \<and> (\<exists>e. threads_create be = Inl e
                 \<and> failure (fst (send_message_to_agent_streaming be global_client ctext)) = Some e)
     else length (chunks (fst (send_message_to_agent_streaming be global_client ctext))) = 1
          \<and> failure (fst (send_message_to_agent_streaming be global_client ctext)) = None)
    \<and> (\<forall>tid a r msgs reply.
          (current_thread client = Some tid
           \<or> (current_thread client = None \<and> threads_create be = Inr tid \<and> tid \<noteq> []))
          \<and> messages_create be tid ctext = None
          \<and> fst (get_agent_cached be client) = Inr a
          \<and> create_and_process be tid a = Inr r \<and> status r \<noteq> ''failed''
          \<and> messages_list be tid = (msgs, None)
          \<and> latest_response_loop msgs None = Some reply \<and> reply \<noteq> []
          \<longrightarrow> fst (send_message_to_agent_streaming be global_client ctext)
                = \<lparr>chunks = [reply], failure = None\<rparr>)
    \<and> (\<forall>msgs. latest_response_loop msgs None
          = (case filter (\<lambda>m. msg_role m = ''assistant'' \<and> text_messages m \<noteq> []) msgs of
               [] \<Rightarrow> None
             | m # ms \<Rightarrow> Some (last (text_messages (last (m # ms))))))
    \<and> (failure (fst (send_message_to_agent_streaming be global_client ctext)) = None
        \<longrightarrow> (\<exists>c. chunks (fst (send_message_to_agent_streaming be global_client ctext)) = [c]
                \<and> (is_error_text c
                    \<or> (\<exists>tid a r msgs.
                          (current_thread client = Some tid
                           \<or> (current_thread client = None \<and> threads_create be = Inr tid
                               \<and> tid \<noteq> []))
                          \<and> messages_create be tid ctext = None
                          \<and> fst (get_agent_cached be client) = Inr a
                          \<and> create_and_process be tid a = Inr r \<and> status r \<noteq> ''failed''
                          \<and> messages_list be tid = (msgs, None)
                          \<and> latest_response_loop msgs None = Some c \<and> c \<noteq> []))))"
proof -
  define s where "s = fst (send_message_to_agent_streaming be global_client ctext)"
  have s: "s = fst (send_message_streaming be client ctext None)"
    by (simp add: s_def send_message_to_agent_streaming_def cl Let_def split: prod.splits)
  have ct: "(current_thread client = None)
            = (global_client = None \<or> (\<exists>c. global_client = Some c \<and> current_thread c = None))"
    by (cases global_client) (simp_all add: cl)
  have A: "if (global_client = None \<or> (\<exists>c. global_client = Some c \<and> current_thread c = None))
              \<and> (\<exists>e. threads_create be = Inl e)
           then chunks s = [] \<and> (\<exists>e. threads_create be = Inl e \<and> failure s = Some e)
           else length (chunks s) = 1 \<and> failure s = None"
  proof (cases "current_thread client")
    case (Some tid)
    obtain c where "fst (stream_try be client tid ctext) = one_chunk c"
      using stream_try_one_chunk by blast
    then have "s = one_chunk c" by (simp add: s sms_existing_thread[OF Some])
    moreover have "\<not> (global_client = None \<or> (\<exists>c. global_client = Some c \<and> current_thread c = None))"
      using Some ct by simp
    ultimately show ?thesis by simp
  next
    case None
    then have g: "global_client = None \<or> (\<exists>c. global_client = Some c \<and> current_thread c = None)"
      using ct by simp
    show ?thesis
    proof (cases "threads_create be")
      case (Inl e)
      have "s = \<lparr>chunks = [], failure = Some e\<rparr>"
        by (simp add: s sms_creation_raises[OF None Inl])
      with g Inl show ?thesis by simp
    next
      case (Inr tid)
      obtain c where "fst (send_message_streaming be client ctext None) = one_chunk c"
        using sms_created_one_chunk[OF None Inr] by blast
      then have "s = one_chunk c" by (simp add: s)
      with Inr show ?thesis by simp
    qed
  qed
  have B: "\<forall>tid a r msgs reply.
          (current_thread client = Some tid
           \<or> (current_thread client = None \<and> threads_create be = Inr tid \<and> tid \<noteq> []))
          \<and> messages_create be tid ctext = None
          \<and> fst (get_agent_cached be client) = Inr a
          \<and> create_and_process be tid a = Inr r \<and> status r \<noteq> ''failed''
          \<and> messages_list be tid = (msgs, None)
          \<and> latest_response_loop msgs None = Some reply \<and> reply \<noteq> []
          \<longrightarrow> s = \<lparr>chunks = [reply], failure = None\<rparr>"
  proof (intro allI impI)
    fix tid a r msgs reply
    assume h: "(current_thread client = Some tid
           \<or> (current_thread client = None \<and> threads_create be = Inr tid \<and> tid \<noteq> []))
          \<and> messages_create be tid ctext = None
          \<and> fst (get_agent_cached be client) = Inr a
          \<and> create_and_process be tid a = Inr r \<and> status r \<noteq> ''failed''
          \<and> messages_list be tid = (msgs, None)
          \<and> latest_response_loop msgs None = Some reply \<and> reply \<noteq> []"
    then have "s = fst (stream_try be client tid ctext)" by (simp add: s sms_thread)
    with h show "s = \<lparr>chunks = [reply], failure = None\<rparr>"
      by (simp add: stream_try_cases one_chunk_def)
  qed
  have C: "\<forall>msgs. latest_response_loop msgs None
          = (case filter (\<lambda>m. msg_role m = ''assistant'' \<and> text_messages m \<noteq> []) msgs of
               [] \<Rightarrow> None
             | m # ms \<Rightarrow> Some (last (text_messages (last (m # ms)))))"
    by (simp add: latest_response_loop_filter)
  have D: "failure s = None
        \<longrightarrow> (\<exists>c. chunks s = [c]
                \<and> (is_error_text c
                    \<or> (\<exists>tid a r msgs.
                          (current_thread client = Some tid
                           \<or> (current_thread client = None \<and> threads_create be = Inr tid
                               \<and> tid \<noteq> []))
                          \<and> messages_create be tid ctext = None
                          \<and> fst (get_agent_cached be client) = Inr a
                          \<and> create_and_process be tid a = Inr r \<and> status r \<noteq> ''failed''
                          \<and> messages_list be tid = (msgs, None)
                          \<and> latest_response_loop msgs None = Some c \<and> c \<noteq> [])))"
  proof
    assume f: "failure s = None"
    have via_try: "\<exists>c. chunks s = [c]
                \<and> (is_error_text c
                    \<or> (\<exists>tid a r msgs.
                          (current_thread client = Some tid
                           \<or> (current_thread client = None \<and> threads_create be = Inr tid
                               \<and> tid \<noteq> []))
                          \<and> messages_create be tid ctext = None
                          \<and> fst (get_agent_cached be client) = Inr a
                          \<and> create_and_process be tid a = Inr r \<and> status r \<noteq> ''failed''
                          \<and> messages_list be tid = (msgs, None)
                          \<and> latest_response_loop msgs None = Some c \<and> c \<noteq> []))"
      if t: "current_thread client = Some tid
           \<or> (current_thread client = None \<and> threads_create be = Inr tid \<and> tid \<noteq> [])" for tid
    proof -
      have st: "s = fst (stream_try be client tid ctext)" using t by (simp add: s sms_thread)
      from stream_try_reply_or_error[of be tid ctext client] show ?thesis
      proof
        assume "\<exists>a r msgs reply.
           messages_create be tid ctext = None \<and> fst (get_agent_cached be client) = Inr a
         \<and> create_and_process be tid a = Inr r \<and> status r \<noteq> ''failed''
         \<and> messages_list be tid = (msgs, None)
         \<and> latest_response_loop msgs None = Some reply \<and> reply \<noteq> []
         \<and> fst (stream_try be client tid ctext) = one_chunk reply"
        then obtain a r msgs reply where h:
           "messages_create be tid ctext = None" "fst (get_agent_cached be client) = Inr a"
           "create_and_process be tid a = Inr r" "status r \<noteq> ''failed''"
           "messages_list be tid = (msgs, None)"
           "latest_response_loop msgs None = Some reply" "reply \<noteq> []"
           "fst (stream_try be client tid ctext) = one_chunk reply" by blast
        from h(8) st have "chunks s = [reply]" by simp
        with h t show ?thesis by blast
      next
        assume "\<exists>c. is_error_text c \<and> fst (stream_try be client tid ctext) = one_chunk c"
        then obtain c where "is_error_text c" "fst (stream_try be client tid ctext) = one_chunk c"
          by blast
        with st have "chunks s = [c] \<and> is_error_text c" by simp
        then show ?thesis by blast
      qed
    qed
    show "\<exists>c. chunks s = [c]
                \<and> (is_error_text c
                    \<or> (\<exists>tid a r msgs.
                          (current_thread client = Some tid
                           \<or> (current_thread client = None \<and> threads_create be = Inr tid
                               \<and> tid \<noteq> []))
                          \<and> messages_create be tid ctext = None
                          \<and> fst (get_agent_cached be client) = Inr a
                          \<and> create_and_process be tid a = Inr r \<and> status r \<noteq> ''failed''
                          \<and> messages_list be tid = (msgs, None)
                          \<and> latest_response_loop msgs None = Some c \<and> c \<noteq> []))"
    proof (cases "current_thread client")
      case (Some tid)
      then show ?thesis using via_try[of tid] by simp
    next
      case None
      show ?thesis
      proof (cases "threads_create be")
        case (Inl e)
        have "s = \<lparr>chunks = [], failure = Some e\<rparr>"
          by (simp add: s sms_creation_raises[OF None Inl])
        with f show ?thesis by simp
      next
        case (Inr tid)
        show ?thesis
        proof (cases "tid = []")
          case True
          have "s = one_chunk (''Sorry, I couldn'' @ [CHR 0x27]
                                @ ''t start a new conversation. Please try again.'')"
            using None Inr True by (simp add: s send_message_streaming_def)
          then have "chunks s = [''Sorry, I couldn'' @ [CHR 0x27]
                                @ ''t start a new conversation. Please try again.'']" by simp
          with is_error_text_cannot_start show ?thesis by blast
        next
          case False
          with None Inr show ?thesis using via_try[of tid] by simp
        qed
      qed
    qed
  qed
  show ?thesis using A B C D unfolding s_def by blast
qed

text \<open>
  C10 (as amended) at the sample service that answers every request: the one chunk is the
  reply of the assistant.
\<close>

theorem streaming_one_chunk_reply_or_error_witness:
  "fst (send_message_to_agent_streaming backend_ok None ''Where is the report?'')
     = \<lparr>chunks = [''Check [this](report.pdf)''], failure = None\<rparr>"
proof -
  have cl: "new_client = (case (None :: azure_client option) of
                           None \<Rightarrow> \<lparr>agent_id = DEFAULT_AGENT_ID, current_thread = None,
                                     cached_agent = None\<rparr>
                         | Some c \<Rightarrow> c)"
    by (simp add: new_client_def)
  have h: "(current_thread new_client = Some ''thread_1''
           \<or> (current_thread new_client = None \<and> threads_create backend_ok = Inr ''thread_1''
               \<and> ''thread_1'' \<noteq> []))
          \<and> messages_create backend_ok ''thread_1'' ''Where is the report?'' = None
          \<and> fst (get_agent_cached backend_ok new_client) = Inr DEFAULT_AGENT_ID
          \<and> create_and_process backend_ok ''thread_1'' DEFAULT_AGENT_ID
              = Inr \<lparr>status = ''completed'', last_error = []\<rparr>
          \<and> status \<lparr>status = ''completed'', last_error = []\<rparr> \<noteq> ''failed''
          \<and> messages_list backend_ok ''thread_1''
              = ([\<lparr>msg_role = ''user'', text_messages = [''Where is the report?'']\<rparr>,
                  \<lparr>msg_role = ''assistant'', text_messages = [''Check [this](report.pdf)'']\<rparr>], None)
          \<and> latest_response_loop
                [\<lparr>msg_role = ''user'', text_messages = [''Where is the report?'']\<rparr>,
                 \<lparr>msg_role = ''assistant'', text_messages = [''Check [this](report.pdf)'']\<rparr>] None
              = Some ''Check [this](report.pdf)''
          \<and> ''Check [this](report.pdf)'' \<noteq> []"
    by (simp add: new_client_def backend_ok_def get_agent_cached_def)
  from streaming_one_chunk_reply_or_error[OF cl, of backend_ok "''Where is the report?''"]
  have "\<forall>tid a r msgs reply.
          (current_thread new_client = Some tid
           \<or> (current_thread new_client = None \<and> threads_create backend_ok = Inr tid \<and> tid \<noteq> []))
          \<and> messages_create backend_ok tid ''Where is the report?'' = None
          \<and> fst (get_agent_cached backend_ok new_client) = Inr a
          \<and> create_and_process backend_ok tid a = Inr r \<and> status r \<noteq> ''failed''
          \<and> messages_list backend_ok tid = (msgs, None)
          \<and> latest_response_loop msgs None = Some reply \<and> reply \<noteq> []
          \<longrightarrow> fst (send_message_to_agent_streaming backend_ok None ''Where is the report?'')
                = \<lparr>chunks = [reply], failure = None\<rparr>"
    by blast
  from this h show ?thesis by blast
qed

text \<open>
  C10 as stated fails when the thread cannot be created: no chunk at all, and an exception.
\<close>

theorem streaming_no_chunk_counterexample:
  "fst (send_message_to_agent_streaming backend_no_thread None ''Where is the report?'')
     = \<lparr>chunks = [], failure = Some (Exception ''service unavailable'')\<rparr>"
  by (simp add: send_message_to_agent_streaming_def send_message_streaming_def
        backend_no_thread_def backend_ok_def)

text \<open>
  C4 as stated fails for a run that reports failure: the stream completes normally and
  its only chunk is an ordinary string.
\<close>

theorem streaming_failure_as_text_counterexample:
  "fst (send_message_to_agent_streaming backend_run_failed None ''Where is the report?'')
     = \<lparr>chunks = [''Sorry, I encountered an error while processing your request: rate_limit_exceeded''],
        failure = None\<rparr>"
  by (simp add: send_message_to_agent_streaming_def send_message_streaming_def stream_try_def
        get_agent_cached_def one_chunk_def backend_run_failed_def backend_ok_def)

lemma sms_never_silent:
  "chunks (fst (send_message_streaming be client ctext thread_id)) \<noteq> []
   \<or> failure (fst (send_message_streaming be client ctext thread_id)) \<noteq> None"
proof -
  have st: "chunks (fst (stream_try be c tid ctext)) \<noteq> []" for c tid
    using stream_try_one_chunk[of be c tid ctext] by auto
  show ?thesis
    using st by (auto simp: send_message_streaming_def Let_def split: option.splits sum.splits)
qed

text \<open>
  C4 (as amended).  Only a failure of thread creation leaves the generator as an
  exception.  With a thread at hand (the current one or a newly created one), an exception
  of message creation, of the agent lookup, of the run or of the message listing, a run
  whose status is \<open>failed\<close>, and a missing or empty assistant reply all end as one
  ordinary chunk holding an apology, after which the stream completes normally.  In no
  case is the stream both empty and completed normally.
\<close>

theorem agent_failure_surfaces:
  "(current_thread client = None \<and> threads_create be = Inl e
      \<longrightarrow> fst (send_message_streaming be client ctext None) = \<lparr>chunks = [], failure = Some e\<rparr>)
   \<and> (current_thread client = Some tid
        \<or> (current_thread client = None \<and> threads_create be = Inr tid \<and> tid \<noteq> [])
      \<longrightarrow>
        (messages_create be tid ctext = Some e
           \<longrightarrow> fst (send_message_streaming be client ctext None)
               = \<lparr>chunks = [''Sorry, I encountered an error while processing your request: ''
                              @ str_exn e], failure = None\<rparr>)
      \<and> (messages_create be tid ctext = None \<and> fst (get_agent_cached be client) = Inl e
           \<longrightarrow> fst (send_message_streaming be client ctext None)
               = \<lparr>chunks = [''Sorry, I encountered an error while processing your request: ''
                              @ str_exn e], failure = None\<rparr>)
      \<and> (messages_create be tid ctext = None \<and> fst (get_agent_cached be client) = Inr a
          \<and> create_and_process be tid a = Inl e
           \<longrightarrow> fst (send_message_streaming be client ctext None)
               = \<lparr>chunks = [''Sorry, I encountered an error while processing your request: ''
                              @ str_exn e], failure = None\<rparr>)
      \<and> (messages_create be tid ctext = None \<and> fst (get_agent_cached be client) = Inr a
          \<and> create_and_process be tid a = Inr r \<and> status r = ''failed''
           \<longrightarrow> fst (send_message_streaming be client ctext None)
               = \<lparr>chunks = [''Sorry, I encountered an error while processing your request: ''
                              @ last_error r], failure = None\<rparr>)
      \<and> (messages_create be tid ctext = None \<and> fst (get_agent_cached be client) = Inr a
          \<and> create_and_process be tid a = Inr r \<and> status r \<noteq> ''failed''
          \<and> messages_list be tid = (msgs, Some e)
           \<longrightarrow> fst (send_message_streaming be client ctext None)
               = \<lparr>chunks = [''Sorry, I encountered an error while processing your request: ''
                              @ str_exn e], failure = None\<rparr>)
      \<and> (messages_create be tid ctext = None \<and> fst (get_agent_cached be client) = Inr a
          \<and> create_and_process be tid a = Inr r \<and> status r \<noteq> ''failed''
          \<and> messages_list be tid = (msgs, None)
          \<and> (latest_response_loop msgs None = None \<or> latest_response_loop msgs None = Some [])
           \<longrightarrow> fst (send_message_streaming be client ctext None)
               = \<lparr>chunks = [''I'' @ [CHR 0x27] @ ''m sorry, I didn'' @ [CHR 0x27]
                              @ ''t receive a proper response. Please try again.''],
                  failure = None\<rparr>))
   \<and> (chunks (fst (send_message_streaming be client ctext None)) \<noteq> []
        \<or> failure (fst (send_message_streaming be client ctext None)) \<noteq> None)"
proof (intro conjI)
  show "current_thread client = None \<and> threads_create be = Inl e
      \<longrightarrow> fst (send_message_streaming be client ctext None) = \<lparr>chunks = [], failure = Some e\<rparr>"
    by (simp add: sms_creation_raises)
next
  show "chunks (fst (send_message_streaming be client ctext None)) \<noteq> []
        \<or> failure (fst (send_message_streaming be client ctext None)) \<noteq> None"
    by (rule sms_never_silent)
next
  show "current_thread client = Some tid
        \<or> (current_thread client = None \<and> threads_create be = Inr tid \<and> tid \<noteq> [])
      \<longrightarrow>
        (messages_create be tid ctext = Some e
           \<longrightarrow> fst (send_message_streaming be client ctext None)
               = \<lparr>chunks = [''Sorry, I encountered an error while processing your request: ''
                              @ str_exn e], failure = None\<rparr>)
      \<and> (messages_create be tid ctext = None \<and> fst (get_agent_cached be client) = Inl e
           \<longrightarrow> fst (send_message_streaming be client ctext None)
               = \<lparr>chunks = [''Sorry, I encountered an error while processing your request: ''
                              @ str_exn e], failure = None\<rparr>)
      \<and> (messages_create be tid ctext = None \<and> fst (get_agent_cached be client) = Inr a
          \<and> create_and_process be tid a = Inl e
           \<longrightarrow> fst (send_message_streaming be client ctext None)
               = \<lparr>chunks = [''Sorry, I encountered an error while processing your request: ''
                              @ str_exn e], failure = None\<rparr>)
      \<and> (messages_create be tid ctext = None \<and> fst (get_agent_cached be client) = Inr a
          \<and> create_and_process be tid a = Inr r \<and> status r = ''failed''
           \<longrightarrow> fst (send_message_streaming be client ctext None)
               = \<lparr>chunks = [''Sorry, I encountered an error while processing your request: ''
                              @ last_error r], failure = None\<rparr>)
      \<and> (messages_create be tid ctext = None \<and> fst (get_agent_cached be client) = Inr a
          \<and> create_and_process be tid a = Inr r \<and> status r \<noteq> ''failed''
          \<and> messages_list be tid = (msgs, Some e)
           \<longrightarrow> fst (send_message_streaming be client ctext None)
               = \<lparr>chunks = [''Sorry, I encountered an error while processing your request: ''
                              @ str_exn e], failure = None\<rparr>)
      \<and> (messages_create be tid ctext = None \<and> fst (get_agent_cached be client) = Inr a
          \<and> create_and_process be tid a = Inr r \<and> status r \<noteq> ''failed''
          \<and> messages_list be tid = (msgs, None)
          \<and> (latest_response_loop msgs None = None \<or> latest_response_loop msgs None = Some [])
           \<longrightarrow> fst (send_message_streaming be client ctext None)
               = \<lparr>chunks = [''I'' @ [CHR 0x27] @ ''m sorry, I didn'' @ [CHR 0x27]
                              @ ''t receive a proper response. Please try again.''],
                  failure = None\<rparr>)"
  proof (intro impI)
    assume t: "current_thread client = Some tid
        \<or> (current_thread client = None \<and> threads_create be = Inr tid \<and> tid \<noteq> [])"
    define client' where
      "client' = (if current_thread client = None then client\<lparr>current_thread := Some tid\<rparr> else client)"
    have eq: "send_message_streaming be client ctext None = stream_try be client' tid ctext"
      using t by (auto simp: client'_def sms_existing_thread sms_created_thread)
    have ga: "fst (get_agent_cached be client') = fst (get_agent_cached be client)"
      by (simp add: client'_def get_agent_cached_def split: option.splits sum.splits)
    obtain g c2 where g: "get_agent_cached be client' = (g, c2)" by (cases "get_agent_cached be client'")
    with ga have g': "fst (get_agent_cached be client) = g" by simp
    show "(messages_create be tid ctext = Some e
           \<longrightarrow> fst (send_message_streaming be client ctext None)
               = \<lparr>chunks = [''Sorry, I encountered an error while processing your request: ''
                              @ str_exn e], failure = None\<rparr>)
      \<and> (messages_create be tid ctext = None \<and> fst (get_agent_cached be client) = Inl e
           \<longrightarrow> fst (send_message_streaming be client ctext None)
               = \<lparr>chunks = [''Sorry, I encountered an error while processing your request: ''
                              @ str_exn e], failure = None\<rparr>)
      \<and> (messages_create be tid ctext = None \<and> fst (get_agent_cached be client) = Inr a
          \<and> create_and_process be tid a = Inl e
           \<longrightarrow> fst (send_message_streaming be client ctext None)
               = \<lparr>chunks = [''Sorry, I encountered an error while processing your request: ''
                              @ str_exn e], failure = None\<rparr>)
      \<and> (messages_create be tid ctext = None \<and> fst (get_agent_cached be client) = Inr a
          \<and> create_and_process be tid a = Inr r \<and> status r = ''failed''
           \<longrightarrow> fst (send_message_streaming be client ctext None)
               = \<lparr>chunks = [''Sorry, I encountered an error while processing your request: ''
                              @ last_error r], failure = None\<rparr>)
      \<and> (messages_create be tid ctext = None \<and> fst (get_agent_cached be client) = Inr a
          \<and> create_and_process be tid a = Inr r \<and> status r \<noteq> ''failed''
          \<and> messages_list be tid = (msgs, Some e)
           \<longrightarrow> fst (send_message_streaming be client ctext None)
               = \<lparr>chunks = [''Sorry, I encountered an error while processing your request: ''
                              @ str_exn e], failure = None\<rparr>)
      \<and> (messages_create be tid ctext = None \<and> fst (get_agent_cached be client) = Inr a
          \<and> create_and_process be tid a = Inr r \<and> status r \<noteq> ''failed''
          \<and> messages_list be tid = (msgs, None)
          \<and> (latest_response_loop msgs None = None \<or> latest_response_loop msgs None = Some [])
           \<longrightarrow> fst (send_message_streaming be client ctext None)
               = \<lparr>chunks = [''I'' @ [CHR 0x27] @ ''m sorry, I didn'' @ [CHR 0x27]
                              @ ''t receive a proper response. Please try again.''],
                  failure = None\<rparr>)"
      unfolding eq g'
      by (intro conjI impI)
         (auto simp: stream_try_def g caught_def one_chunk_def no_response_def)
  qed
qed

text \<open>
  C4 (as amended) at the sample service whose run reports failure.
\<close>

theorem agent_failure_surfaces_witness:
  "fst (send_message_streaming backend_run_failed new_client ''Where is the report?'' None)
     = \<lparr>chunks = [''Sorry, I encountered an error while processing your request: rate_limit_exceeded''],
        failure = None\<rparr>"
proof -
  have t: "current_thread new_client = Some ''thread_1''
        \<or> (current_thread new_client = None \<and> threads_create backend_run_failed = Inr ''thread_1''
            \<and> ''thread_1'' \<noteq> [])"
    by (simp add: new_client_def backend_run_failed_def backend_ok_def)
  have h: "messages_create backend_run_failed ''thread_1'' ''Where is the report?'' = None
        \<and> fst (get_agent_cached backend_run_failed new_client) = Inr DEFAULT_AGENT_ID
        \<and> create_and_process backend_run_failed ''thread_1'' DEFAULT_AGENT_ID
            = Inr \<lparr>status = ''failed'', last_error = ''rate_limit_exceeded''\<rparr>
        \<and> status \<lparr>status = ''failed'', last_error = ''rate_limit_exceeded''\<rparr> = ''failed''"
    by (simp add: new_client_def backend_run_failed_def backend_ok_def get_agent_cached_def)
  show ?thesis
    using t h
      agent_failure_surfaces[of new_client backend_run_failed _ "''Where is the report?''"
        "''thread_1''" DEFAULT_AGENT_ID "\<lparr>status = ''failed'', last_error = ''rate_limit_exceeded''\<rparr>"]
    by simp
qed

section \<open>Properties of the markdown link extractor\<close>

lemma startswith_iff: "startswith s p = (\<exists>r. s = p @ r)"
  by (induction s p rule: startswith.induct) auto

lemma match_at_SomeD:
  assumes "match_at s = Some (t, u)"
  shows "t \<noteq> [] \<and> CHR '']'' \<notin> set t \<and> u \<noteq> [] \<and> CHR '')'' \<notin> set u
         \<and> (\<exists>rest. s = ''['' @ t @ '']('' @ u @ '')'' @ rest)"
proof -
  from assms obtain r0 where s: "s = CHR ''['' # r0"
    by (cases s) (auto simp: match_at_def split: if_splits)
  define r1 where "r1 = dropWhile (\<lambda>x. x \<noteq> CHR '']'') r0"
  define r2 where "r2 = drop 2 r1"
  define r3 where "r3 = dropWhile (\<lambda>x. x \<noteq> CHR '')'') r2"
  from assms have t: "t = takeWhile (\<lambda>x. x \<noteq> CHR '']'') r0" and tne: "t \<noteq> []"
    and sw: "startswith r1 '']('' "
    and u: "u = takeWhile (\<lambda>x. x \<noteq> CHR '')'') r2" and une: "u \<noteq> []" and r3ne: "r3 \<noteq> []"
    unfolding s r1_def r2_def r3_def
    by (auto simp: match_at_def Let_def split: if_splits)
  from sw obtain q where r1: "r1 = '']('' @ q" unfolding startswith_iff by blast
  then have r2: "r2 = q" by (simp add: r2_def)
  have r0: "r0 = t @ r1" unfolding t r1_def by simp
  have "hd r3 = CHR '')''"
    using r3ne hd_dropWhile[of "\<lambda>x. x \<noteq> CHR '')''" r2] unfolding r3_def by auto
  then obtain r4 where r3: "r3 = CHR '')'' # r4" using r3ne by (cases r3) auto
  have q: "q = u @ r3" unfolding u r3_def r2[symmetric] by simp
  have nt: "CHR '']'' \<notin> set t" unfolding t using set_takeWhileD by fastforce
  have nu: "CHR '')'' \<notin> set u" unfolding u using set_takeWhileD by fastforce
  have "s = ''['' @ t @ '']('' @ u @ '')'' @ r4"
    by (simp add: s r0 r1 q r3)
  with tne une nt nu show ?thesis by blast
qed

lemma findall_from_match:
  "(t, u) \<in> set (findall_from k s) \<Longrightarrow> \<exists>s'. match_at s' = Some (t, u)"
proof (induction k s rule: findall_from.induct)
  case (1 skip)
  then show ?case by simp
next
  case (2 skip c cs)
  show ?case
  proof (cases "0 < skip")
    case True
    with 2 show ?thesis by simp
  next
    case False
    show ?thesis
    proof (cases "match_at (c # cs)")
      case None
      with False 2 show ?thesis by simp
    next
      case (Some m)
      obtain t' u' where m: "m = (t', u')" by (cases m)
      from 2(4) False Some m have "(t, u) = (t', u') \<or> (t, u) \<in> set (findall_from (length t' + length u' + 3) cs)"
        by simp
      then show ?thesis
      proof
        assume "(t, u) = (t', u')"
        with Some m show ?thesis by auto
      next
        assume "(t, u) \<in> set (findall_from (length t' + length u' + 3) cs)"
        with 2(3)[OF False Some m[symmetric]] show ?thesis by simp
      qed
    qed
  qed
qed

lemma findall_parts:
  assumes "(t, u) \<in> set (findall s)"
  shows "t \<noteq> []" "CHR '']'' \<notin> set t" "u \<noteq> []" "CHR '')'' \<notin> set u"
  using findall_from_match[of t u 0 s] assms match_at_SomeD unfolding findall_def by blast+

lemma extract_loop_eq:
  "extract_loop score decode fl ms acc =
     acc @ map (\<lambda>(t, u). make_link_info score decode fl t u)
             (filter (\<lambda>(t, u). \<not> (startswith u ''http://'' \<or> startswith u ''https://'')) ms)"
  by (induction ms arbitrary: acc) auto

lemma extract_markdown_links_eq:
  "extract_markdown_links score decode fs s =
     map (\<lambda>(t, u). make_link_info score decode (fst (scan_files_directory fs ''public/files/'')) t u)
       (filter (\<lambda>(t, u). \<not> (startswith u ''http://'' \<or> startswith u ''https://'')) (findall s))"
  by (simp add: extract_markdown_links_def Let_def extract_loop_eq)

lemma split_str_takeWhile:
  "split_str c s = takeWhile (\<lambda>x. x \<noteq> c) s # tl (split_str c s)"
  by (induction s) (auto split: list.splits)

lemma first_segment_takeWhile:
  "first_segment s = takeWhile (\<lambda>c. c \<noteq> CHR ''.'') s"
proof -
  obtain x xs where "split_str CHR ''.'' s = x # xs" "x = takeWhile (\<lambda>c. c \<noteq> CHR ''.'') s"
    using split_str_takeWhile[of "CHR ''.''" s] by blast
  then show ?thesis by (simp add: first_segment_def)
qed

lemma scan_loop_paths:
  "scan_loop fs entries acc = Inr all_files \<Longrightarrow>
   path ` set all_files \<subseteq> path ` set acc \<union> set entries"
proof (induction entries arbitrary: acc)
  case Nil
  then show ?case by auto
next
  case (Cons p entries)
  show ?case
  proof (cases "fs_is_file fs p")
    case (Inl e)
    with Cons.prems show ?thesis by simp
  next
    case (Inr b)
    show ?thesis
    proof (cases b)
      case False
      with Inr Cons.prems have "scan_loop fs entries acc = Inr all_files" by simp
      from Cons.IH[OF this] show ?thesis by auto
    next
      case True
      show ?thesis
      proof (cases "startswith p ''/''")
        case T: True
        with True Inr Cons.prems show ?thesis by (simp add: relative_to_cwd_def)
      next
        case F: False
        with True Inr Cons.prems have
          "scan_loop fs entries (acc @ [\<lparr>path = p, name_without_ext = path_stem p,
                                       full_name = path_name p\<rparr>]) = Inr all_files"
          by (simp add: relative_to_cwd_def)
        from Cons.IH[OF this] show ?thesis by auto
      qed
    qed
  qed
qed

lemma scan_paths:
  assumes "fst (scan_files_directory fs d) = Some fl"
  shows "path ` set fl \<subseteq> set (fst (fs_rglob fs d))"
proof -
  obtain entries stopped where r: "fs_rglob fs d = (entries, stopped)" by (cases "fs_rglob fs d")
  from assms obtain all_files where "scan_loop fs entries [] = Inr all_files" "fl = all_files"
    by (auto simp: scan_files_directory_def scan_body_def r
             split: sum.splits bool.splits option.splits if_splits)
  with scan_loop_paths[of fs entries "[]" all_files] r show ?thesis by simp
qed

lemma find_best_match_in_inventory:
  assumes "find_best_match score fname (Some fl) = Some p"
  shows "p \<in> path ` set fl"
proof -
  from assms have ne: "fl \<noteq> []" by (auto simp: find_best_match_def)
  from assms obtain r where
    "find (\<lambda>r. entry_score score fname r = Max (entry_score score fname ` set fl)) fl = Some r"
    "p = path r"
    unfolding find_best_match_eq[OF ne] by (auto split: if_splits)
  then show ?thesis by (auto simp: find_Some_iff)
qed

lemma scan_fs_demo: "fst (scan_files_directory fs_demo ''public/files/'') = Some demo_inventory"
  by (simp add: scan_files_directory_def scan_body_def fs_demo_def relative_to_cwd_def
        demo_inventory_def path_stem_def path_name_def rfind_def)

text \<open>
  C3.  Every link \<open>[t](u)\<close> of the text whose URL is not external has a record in the
  output of \<open>extract_markdown_links\<close>.  Its candidate filename is the last path segment
  of the URL, or the link text when that segment is empty or has no dot; the candidate is
  percent-decoded, and it is the decoded candidate that is given to \<open>find_best_match\<close>;
  the filename field is the decoded candidate up to its first dot; the final URL is
  \<open>/gradio_api/file=\<close> followed by the resolved path when there is a match, and the
  original URL otherwise.  The walk of the directory yields no empty path, as is the case
  for every path \<open>pathlib\<close> prints.
\<close>

theorem extract_markdown_links_record:
  assumes m: "(t, u) \<in> set (findall s)"
      and nh: "\<not> startswith u ''http://''" "\<not> startswith u ''https://''"
      and wf: "[] \<notin> set (fst (fs_rglob fs ''public/files/''))"
  shows "\<exists>r\<in>set (extract_markdown_links score decode fs s).
           link_text r = t
         \<and> original_link r = ''['' @ t @ '']('' @ u @ '')''
         \<and> (let segment = path_name u;
                 candidate = (if segment = [] \<or> CHR ''.'' \<notin> set segment then t else segment);
                 resolved = find_best_match score (unquote decode candidate)
                              (fst (scan_files_directory fs ''public/files/''))
             in filename r = takeWhile (\<lambda>c. c \<noteq> CHR ''.'') (unquote decode candidate)
              \<and> url r = (case resolved of
                            None \<Rightarrow> u
                          | Some p \<Rightarrow> ''/gradio_api/file='' @ p)
              \<and> fuzzy_matched r = (resolved \<noteq> None))"
proof -
  define inv where "inv = fst (scan_files_directory fs ''public/files/'')"
  define r where "r = make_link_info score decode inv t u"
  have une: "u \<noteq> []" using findall_parts(3)[OF m] .
  have "(t, u) \<in> set (filter (\<lambda>(t, u). \<not> (startswith u ''http://'' \<or> startswith u ''https://''))
                         (findall s))"
    using m nh by simp
  then have rin: "r \<in> set (extract_markdown_links score decode fs s)"
    unfolding extract_markdown_links_eq r_def inv_def by force
  define candidate where
    "candidate = (if path_name u = [] \<or> CHR ''.'' \<notin> set (path_name u) then t else path_name u)"
  have cand: "candidate_filename t u = candidate"
    using une by (simp add: candidate_filename_def candidate_def Let_def)
  define resolved where "resolved = find_best_match score (unquote decode candidate) inv"
  have pne: "p \<noteq> []" if "resolved = Some p" for p
  proof -
    from that obtain fl where fl: "inv = Some fl"
      unfolding resolved_def by (cases inv) (auto simp: find_best_match_def)
    with that have "p \<in> path ` set fl"
      unfolding resolved_def using find_best_match_in_inventory by blast
    moreover have "path ` set fl \<subseteq> set (fst (fs_rglob fs ''public/files/''))"
      using scan_paths fl unfolding inv_def by blast
    ultimately show ?thesis using wf by auto
  qed
  have f1: "link_text r = t" "original_link r = ''['' @ t @ '']('' @ u @ '')''"
    by (simp_all add: r_def make_link_info_def Let_def)
  have f2: "filename r = takeWhile (\<lambda>c. c \<noteq> CHR ''.'') (unquote decode candidate)"
    by (simp add: r_def make_link_info_def Let_def cand first_segment_takeWhile)
  have f3: "url r = (case resolved of None \<Rightarrow> u | Some p \<Rightarrow> ''/gradio_api/file='' @ p)"
    using pne by (simp add: r_def make_link_info_def Let_def cand resolved_def[symmetric]
                       split: option.splits)
  have f4: "fuzzy_matched r = (resolved \<noteq> None)"
    by (simp add: r_def make_link_info_def Let_def cand resolved_def[symmetric])
  show ?thesis
    using rin f1 f2 f3 f4
    unfolding Let_def candidate_def[symmetric] inv_def[symmetric] resolved_def[symmetric]
    by blast
qed

lemma str_nat_small: "str_nat 0 = ''0''" "str_nat (Suc 0) = ''1''"
  by (simp_all add: str_nat.simps digit_char_def)

text \<open>
  C3 at a link whose URL holds a percent-encoded underscore and resolves against the
  sample file system.
\<close>

theorem extract_markdown_links_record_witness:
  "\<exists>r\<in>set (extract_markdown_links demo_score plain_decode fs_demo
               ''See [this](docs/report%5Ffinal.pdf)'').
     link_text r = ''this''
   \<and> original_link r = ''[this](docs/report%5Ffinal.pdf)''
   \<and> filename r = ''report_final''
   \<and> url r = ''/gradio_api/file=public/files/a/report_final.pdf''
   \<and> fuzzy_matched r"
proof -
  have m: "(''this'', ''docs/report%5Ffinal.pdf'') \<in> set (findall ''See [this](docs/report%5Ffinal.pdf)'')"
    by (simp add: findall_def match_at_def)
  have nh: "\<not> startswith ''docs/report%5Ffinal.pdf'' ''http://''"
           "\<not> startswith ''docs/report%5Ffinal.pdf'' ''https://''"
    by simp_all
  have wf: "[] \<notin> set (fst (fs_rglob fs_demo ''public/files/''))"
    by (simp add: fs_demo_def)
  have pn: "path_name ''docs/report%5Ffinal.pdf'' = ''report%5Ffinal.pdf''"
    by (simp add: path_name_def)
  have c95: "char_of (95::nat) = CHR ''_''" by code_simp
  have uq: "unquote plain_decode ''report%5Ffinal.pdf'' = ''report_final.pdf''"
    by (simp add: unquote_def plain_decode_def is_ascii_def hexval_def c95)
  have fb: "find_best_match demo_score ''report_final.pdf'' (Some demo_inventory)
              = Some ''public/files/a/report_final.pdf''"
    by (simp add: find_best_match_def extractOne_def demo_inventory_def demo_score_def
          path_stem_def path_name_def rfind_def Let_def)
  show ?thesis
    using extract_markdown_links_record[OF m nh wf, of demo_score plain_decode]
    by (simp add: pn uq scan_fs_demo fb Let_def)
qed

section \<open>External links\<close>

lemma cards_loop_eq:
  "cards_loop i links acc = acc @ map (\<lambda>k. card_html (i + k) (links ! k)) [0..<length links]"
proof (induction links arbitrary: i acc)
  case Nil
  show ?case by simp
next
  case (Cons l links)
  have "map (\<lambda>k. card_html (i + k) ((l # links) ! k)) [0..<length (l # links)]
        = card_html i l # map (\<lambda>k. card_html (Suc i + k) (links ! k)) [0..<length links]"
    by (simp add: upt_conv_Cons map_Suc_upt[symmetric] del: upt_Suc)
  then show ?case using Cons.IH[of "Suc i" "acc @ [card_html i l]"] by simp
qed

lemma append_sep_inject:
  "c \<notin> set t \<Longrightarrow> c \<notin> set t' \<Longrightarrow> t @ c # r = t' @ c # r' \<Longrightarrow> t = t' \<and> r = r'"
proof (induction t arbitrary: t')
  case Nil
  then show ?case by (cases t') auto
next
  case (Cons a t)
  then show ?case by (cases t') auto
qed

lemma link_markdown_inject:
  assumes "CHR '']'' \<notin> set t" "CHR '']'' \<notin> set t'"
      and "''['' @ t @ '']('' @ u @ '')'' = ''['' @ t' @ '']('' @ u' @ '')''"
  shows "t = t' \<and> u = u'"
proof -
  from assms(3) have "t @ CHR '']'' # (CHR ''('' # u @ '')'') = t' @ CHR '']'' # (CHR ''('' # u' @ '')'')"
    by simp
  from append_sep_inject[OF assms(1,2) this] show ?thesis by simp
qed

text \<open>
  C9 (as amended).  Whatever the inventory and the similarity function, every record
  that \<open>extract_markdown_links\<close> returns comes from a link of the text whose URL starts
  neither with \<open>http://\<close> nor with \<open>https://\<close>, and the markdown of a link with such
  a URL is the \<open>original_link\<close> of no record: it is never a pattern the rewrite step
  searches for.  There are as many records as links that are not external, and one card
  per record, so an external link produces no card.
\<close>

theorem external_links_excluded:
  "(\<forall>r\<in>set (extract_markdown_links score decode fs s).
       \<exists>t u. (t, u) \<in> set (findall s)
            \<and> \<not> startswith u ''http://'' \<and> \<not> startswith u ''https://''
            \<and> link_text r = t \<and> original_link r = ''['' @ t @ '']('' @ u @ '')'')
   \<and> (\<forall>t u. (t, u) \<in> set (findall s) \<and> (startswith u ''http://'' \<or> startswith u ''https://'')
          \<longrightarrow> ''['' @ t @ '']('' @ u @ '')''
                \<notin> original_link ` set (extract_markdown_links score decode fs s))
   \<and> length (extract_markdown_links score decode fs s)
       = length (filter (\<lambda>(t, u). \<not> (startswith u ''http://'' \<or> startswith u ''https://''))
                   (findall s))
   \<and> length (cards_loop 0 (extract_markdown_links score decode fs s) [])
       = length (extract_markdown_links score decode fs s)"
proof -
  have A: "\<forall>r\<in>set (extract_markdown_links score decode fs s).
       \<exists>t u. (t, u) \<in> set (findall s)
            \<and> \<not> startswith u ''http://'' \<and> \<not> startswith u ''https://''
            \<and> link_text r = t \<and> original_link r = ''['' @ t @ '']('' @ u @ '')''"
    unfolding extract_markdown_links_eq
    by (auto simp: make_link_info_def Let_def)
  have B: "\<forall>t u. (t, u) \<in> set (findall s) \<and> (startswith u ''http://'' \<or> startswith u ''https://'')
          \<longrightarrow> ''['' @ t @ '']('' @ u @ '')''
                \<notin> original_link ` set (extract_markdown_links score decode fs s)"
  proof (intro allI impI notI)
    fix t u
    assume h: "(t, u) \<in> set (findall s) \<and> (startswith u ''http://'' \<or> startswith u ''https://'')"
       and i: "''['' @ t @ '']('' @ u @ '')''
                \<in> original_link ` set (extract_markdown_links score decode fs s)"
    from i obtain r where r: "r \<in> set (extract_markdown_links score decode fs s)"
        "original_link r = ''['' @ t @ '']('' @ u @ '')''" by force
    from A r(1) obtain t' u' where m': "(t', u') \<in> set (findall s)"
        "\<not> startswith u' ''http://''" "\<not> startswith u' ''https://''"
        "original_link r = ''['' @ t' @ '']('' @ u' @ '')''" by blast
    have "t = t' \<and> u = u'"
      using link_markdown_inject[of t t' u u'] findall_parts(2)[OF m'(1)]
            findall_parts(2)[of t u s] h r(2) m'(4)
      by simp
    with h m'(2,3) show False by simp
  qed
  have C: "length (extract_markdown_links score decode fs s)
       = length (filter (\<lambda>(t, u). \<not> (startswith u ''http://'' \<or> startswith u ''https://''))
                   (findall s))"
    unfolding extract_markdown_links_eq by simp
  have D: "length (cards_loop 0 (extract_markdown_links score decode fs s) [])
       = length (extract_markdown_links score decode fs s)"
    by (simp add: cards_loop_eq)
  from A B C D show ?thesis by blast
qed

text \<open>
  C9 (as amended) at a text with one external and one local link.
\<close>

theorem external_links_excluded_witness:
  "map original_link (extract_markdown_links demo_score plain_decode fs_missing
                        ''[docs](https://e.org/a.pdf) and [a](b)'') = [''[a](b)'']
   \<and> length (cards_loop 0 (extract_markdown_links demo_score plain_decode fs_missing
                              ''[docs](https://e.org/a.pdf) and [a](b)'') []) = 1"
proof -
  have f: "findall ''[docs](https://e.org/a.pdf) and [a](b)''
             = [(''docs'', ''https://e.org/a.pdf''), (''a'', ''b'')]"
    by (simp add: findall_def match_at_def)
  note main = external_links_excluded[of demo_score plain_decode fs_missing
                 "''[docs](https://e.org/a.pdf) and [a](b)''"]
  from main have len: "length (extract_markdown_links demo_score plain_decode fs_missing
                        ''[docs](https://e.org/a.pdf) and [a](b)'') = 1"
    by (simp add: f)
  then obtain r where r: "extract_markdown_links demo_score plain_decode fs_missing
                        ''[docs](https://e.org/a.pdf) and [a](b)'' = [r]"
    by (auto simp: length_Suc_conv)
  from main r have "original_link r = ''[a](b)''"
    by (auto simp: f)
  with main r show ?thesis by simp
qed

text \<open>
  C9 as stated fails in its last part.  The first link of this text is external, and the
  markdown of the second link occurs inside its URL; the replacement made for the second
  link lands there, so the text of the external link does not survive the rewrite.
\<close>

theorem external_link_altered_counterexample:
  \<open>findall ''[x](http://e/[a](b) [a](b)'' = [(''x'', ''http://e/[a](b''), (''a'', ''b'')]
   \<and> rewrite_message
        (extract_markdown_links demo_score plain_decode fs_missing ''[x](http://e/[a](b) [a](b)'')
        ''[x](http://e/[a](b) [a](b)''
     = ''[x](http://e/<a href="#source-card-0" onclick="document.getElementById('source-card-0').scrollIntoView({behavior: 'smooth'}); return false;">a</a> [a](b)''
       @ [CHR 0x0A, CHR 0x0A]
       @ ''<div class="source-cards-container"><div class="source-card" id="source-card-0"><div class="card-icon">''
       @ card_icon
       @ ''</div><div class="card-title">a</div><a href="b" class="card-link" target="_blank">Download</a></div></div>''\<close>
proof -
  have f: "findall ''[x](http://e/[a](b) [a](b)'' = [(''x'', ''http://e/[a](b''), (''a'', ''b'')]"
    by (simp add: findall_def match_at_def)
  have e: "extract_markdown_links demo_score plain_decode fs_missing ''[x](http://e/[a](b) [a](b)''
        = [\<lparr>filename = ''a'', url = ''b'', original_link = ''[a](b)'', link_text = ''a'',
            fuzzy_matched = False\<rparr>]"
    by (simp add: extract_markdown_links_def f make_link_info_def scan_files_directory_def
          scan_body_def fs_missing_def find_best_match_def candidate_filename_def path_name_def
          unquote_def first_segment_def Let_def)
  show ?thesis
    unfolding e
    by (simp add: f rewrite_message_def anchor_link_def anchor_id_def str_nat_small card_html_def
          cards_html_def html_escape_def escape_char_def)
qed

section \<open>Properties of the message rewriter\<close>

lemma replace_first_spec:
  "(\<exists>pre post. s = pre @ old @ post
       \<and> (\<forall>p q. s = p @ old @ q \<longrightarrow> length pre \<le> length p)
       \<and> replace_first old new s = pre @ new @ post)
   \<or> ((\<forall>pre post. s \<noteq> pre @ old @ post) \<and> replace_first old new s = s)"
proof (induction s)
  case Nil
  show ?case by (cases old) auto
next
  case (Cons c cs)
  show ?case
  proof (cases "startswith (c # cs) old")
    case True
    then obtain r where r: "c # cs = old @ r" unfolding startswith_iff by blast
    then have d: "drop (length old) (c # cs) = r" by (metis append_eq_conv_conj)
    have "replace_first old new (c # cs) = new @ drop (length old) (c # cs)"
      using True by simp
    then have "replace_first old new (c # cs) = [] @ new @ r" unfolding d by simp
    moreover have "c # cs = [] @ old @ r" using r by simp
    moreover have "\<forall>p q. c # cs = p @ old @ q \<longrightarrow> length ([]::string) \<le> length p" by simp
    ultimately show ?thesis by blast
  next
    case False
    have nohead: "p \<noteq> []" if "c # cs = p @ old @ q" for p q
      using that False unfolding startswith_iff by auto
    from Cons.IH show ?thesis
    proof
      assume "\<exists>pre post. cs = pre @ old @ post
       \<and> (\<forall>p q. cs = p @ old @ q \<longrightarrow> length pre \<le> length p)
       \<and> replace_first old new cs = pre @ new @ post"
      then obtain pre post where a: "cs = pre @ old @ post"
         and b: "\<forall>p q. cs = p @ old @ q \<longrightarrow> length pre \<le> length p"
         and c: "replace_first old new cs = pre @ new @ post" by blast
      have "\<forall>p q. c # cs = p @ old @ q \<longrightarrow> length (c # pre) \<le> length p"
      proof (intro allI impI)
        fix p q assume e: "c # cs = p @ old @ q"
        with nohead obtain p' where p: "p = c # p'" by (cases p) auto
        with e have "cs = p' @ old @ q" by simp
        with b have "length pre \<le> length p'" by blast
        with p show "length (c # pre) \<le> length p" by simp
      qed
      moreover have "c # cs = (c # pre) @ old @ post" using a by simp
      moreover have "replace_first old new (c # cs) = (c # pre) @ new @ post"
        using False c by simp
      ultimately show ?thesis by blast
    next
      assume n: "(\<forall>pre post. cs \<noteq> pre @ old @ post) \<and> replace_first old new cs = cs"
      have "\<forall>pre post. c # cs \<noteq> pre @ old @ post"
      proof (intro allI notI)
        fix p q assume e: "c # cs = p @ old @ q"
        with nohead obtain p' where p: "p = c # p'" by (cases p) auto
        with e have "cs = p' @ old @ q" by simp
        with n show False by blast
      qed
      moreover have "replace_first old new (c # cs) = c # cs" using False n by simp
      ultimately show ?thesis by blast
    qed
  qed
qed

lemma replace_links_snoc:
  "replace_links i (xs @ [l]) m
     = replace_first (original_link l) (anchor_link (i + length xs) l) (replace_links i xs m)"
  by (induction xs arbitrary: i m) auto

lemma replace_links_step:
  assumes "k < length links"
  shows "replace_links 0 (take (Suc k) links) m
         = replace_first (original_link (links ! k)) (anchor_link k (links ! k))
             (replace_links 0 (take k links) m)"
  using assms replace_links_snoc[of 0 "take k links" "links ! k" m]
  by (simp add: take_Suc_conv_app_nth)

lemma digit_char_inject:
  "a < 10 \<Longrightarrow> b < 10 \<Longrightarrow> digit_char a = digit_char b \<Longrightarrow> a = b"
proof -
  assume a: "a < 10" and b: "b < 10" and e: "digit_char a = digit_char b"
  from a have "a = 0 \<or> a = 1 \<or> a = 2 \<or> a = 3 \<or> a = 4 \<or> a = 5 \<or> a = 6 \<or> a = 7 \<or> a = 8 \<or> a = 9"
    by arith
  moreover from b have "b = 0 \<or> b = 1 \<or> b = 2 \<or> b = 3 \<or> b = 4 \<or> b = 5 \<or> b = 6 \<or> b = 7 \<or> b = 8 \<or> b = 9"
    by arith
  ultimately show "a = b" using e by (auto simp: digit_char_def)
qed

lemma str_nat_nonempty: "str_nat n \<noteq> []"
  by (subst str_nat.simps) simp

lemma str_nat_length_one: "(length (str_nat n) = Suc 0) = (n < 10)"
proof (cases "n < 10")
  case True
  then show ?thesis by (subst str_nat.simps) simp
next
  case False
  have "length (str_nat (n div 10)) \<noteq> 0" using str_nat_nonempty by simp
  with False show ?thesis by (subst str_nat.simps) simp
qed

lemma str_nat_inject: "str_nat m = str_nat n \<Longrightarrow> m = n"
proof (induction m arbitrary: n rule: str_nat.induct)
  case (1 m)
  show ?case
  proof (cases "m < 10")
    case True
    then have "length (str_nat m) = Suc 0" by (simp add: str_nat_length_one)
    with "1.prems" have n: "n < 10" by (simp add: str_nat_length_one[symmetric])
    from True n "1.prems" have "digit_char m = digit_char n"
      by (simp add: str_nat.simps[of m] str_nat.simps[of n])
    with True n show ?thesis by (rule digit_char_inject)
  next
    case False
    then have "length (str_nat m) \<noteq> Suc 0" by (simp add: str_nat_length_one)
    with "1.prems" have n: "\<not> n < 10" by (simp add: str_nat_length_one[symmetric])
    from False n "1.prems" have e: "str_nat (m div 10) @ [digit_char (m mod 10)]
        = str_nat (n div 10) @ [digit_char (n mod 10)]"
      by (simp add: str_nat.simps[of m] str_nat.simps[of n])
    then have "str_nat (m div 10) = str_nat (n div 10)" "digit_char (m mod 10) = digit_char (n mod 10)"
      by simp_all
    with "1.IH"[OF False] have "m div 10 = n div 10" "m mod 10 = n mod 10"
      by (auto intro: digit_char_inject)
    then show ?thesis by (metis div_mult_mod_eq)
  qed
qed

lemma anchor_id_inject: "anchor_id i = anchor_id j \<Longrightarrow> i = j"
  by (simp add: anchor_id_def str_nat_inject)

text \<open>
  The links that were extracted from a message occur in it in their order, and a
  replacement never reaches into the part of the message behind the link it is made for.
  So at every step of the loop the markdown of the current link is still there.
\<close>

lemma occurs_in_order_prepend:
  "occurs_in_order s xs \<Longrightarrow> occurs_in_order (p @ s) xs"
proof (cases xs)
  case Nil
  then show ?thesis by simp
next
  case (Cons x xs')
  assume "occurs_in_order s xs"
  with Cons obtain gap rest where "s = gap @ x @ rest" "occurs_in_order rest xs'" by auto
  then have "p @ s = (p @ gap) @ x @ rest \<and> occurs_in_order rest xs'" by simp
  then show ?thesis unfolding Cons occurs_in_order.simps by blast
qed

lemma occurs_in_order_filter:
  "occurs_in_order s (map f xs) \<Longrightarrow> occurs_in_order s (map f (filter P xs))"
proof (induction xs arbitrary: s)
  case Nil
  then show ?case by simp
next
  case (Cons x xs)
  from Cons.prems obtain gap rest where s: "s = gap @ f x @ rest"
      and r: "occurs_in_order rest (map f xs)" by auto
  from Cons.IH[OF r] have r': "occurs_in_order rest (map f (filter P xs))" .
  show ?case
  proof (cases "P x")
    case True
    with s r' show ?thesis by auto
  next
    case False
    have "occurs_in_order ((gap @ f x) @ rest) (map f (filter P xs))"
      using r' by (rule occurs_in_order_prepend)
    with False s show ?thesis by simp
  qed
qed

lemma findall_from_in_order:
  "occurs_in_order (drop k s) (map markdown_of (findall_from k s))"
proof (induction k s rule: findall_from.induct)
  case (1 skip)
  show ?case by simp
next
  case (2 skip c cs)
  show ?case
  proof (cases "0 < skip")
    case True
    then obtain k' where k: "skip = Suc k'" by (cases skip) auto
    with True 2(1) show ?thesis by simp
  next
    case False
    then have sk: "skip = 0" by simp
    show ?thesis
    proof (cases "match_at (c # cs)")
      case None
      from 2(2)[OF False None] have "occurs_in_order cs (map markdown_of (findall_from 0 cs))"
        by simp
      then have "occurs_in_order ([c] @ cs) (map markdown_of (findall_from 0 cs))"
        by (rule occurs_in_order_prepend)
      with None sk show ?thesis by simp
    next
      case (Some m)
      obtain t u where m: "m = (t, u)" by (cases m)
      from match_at_SomeD[of "c # cs" t u] Some m obtain rest where
        e: "c # cs = ''['' @ t @ '']('' @ u @ '')'' @ rest" by blast
      then have cs: "cs = (t @ '']('' @ u @ '')'') @ rest" by simp
      have "length (t @ '']('' @ u @ '')'') = length t + length u + 3" by simp
      then have "drop (length t + length u + 3) cs = rest"
        unfolding cs by (metis append_eq_conv_conj)
      with 2(3)[OF False Some m[symmetric]] have
        "occurs_in_order rest (map markdown_of (findall_from (length t + length u + 3) cs))"
        by simp
      moreover have "c # cs = [] @ markdown_of (t, u) @ rest"
        using e by (simp add: markdown_of_def)
      ultimately have "occurs_in_order (c # cs)
          (markdown_of (t, u) # map markdown_of (findall_from (length t + length u + 3) cs))"
        unfolding occurs_in_order.simps by blast
      with Some m sk show ?thesis by simp
    qed
  qed
qed

lemma extracted_in_order:
  "occurs_in_order s (map original_link (extract_markdown_links score decode fs s))"
proof -
  have "map original_link (extract_markdown_links score decode fs s)
      = map markdown_of (filter (\<lambda>(t, u). \<not> (startswith u ''http://'' \<or> startswith u ''https://''))
                           (findall s))"
    unfolding extract_markdown_links_eq
    by (simp add: make_link_info_def Let_def markdown_of_def split_def comp_def)
  moreover have "occurs_in_order s (map markdown_of (findall s))"
    using findall_from_in_order[of 0 s] by (simp add: findall_def)
  ultimately show ?thesis by (simp add: occurs_in_order_filter)
qed

lemma replace_links_occurrence:
  "occurs_in_order S (map original_link ls) \<Longrightarrow> j < length ls \<Longrightarrow>
   \<exists>pre post. replace_links i (take j ls) (P @ S) = pre @ original_link (ls ! j) @ post"
proof (induction ls arbitrary: S P i j)
  case Nil
  then show ?case by simp
next
  case (Cons l ls)
  from Cons.prems(1) obtain gap rest where S: "S = gap @ original_link l @ rest"
      and r: "occurs_in_order rest (map original_link ls)" by auto
  show ?case
  proof (cases j)
    case 0
    have "P @ S = (P @ gap) @ original_link l @ rest" by (simp add: S)
    with 0 show ?thesis by (metis nth_Cons_0 replace_links.simps(1) take_0)
  next
    case (Suc j')
    with Cons.prems(2) have j': "j' < length ls" by simp
    define M where "M = P @ S"
    have occ: "M = (P @ gap) @ original_link l @ rest" by (simp add: M_def S)
    from replace_first_spec[of M "original_link l" "anchor_link i l"] occ
    obtain pre post where a: "M = pre @ original_link l @ post"
        and b: "length pre \<le> length (P @ gap)"
        and c: "replace_first (original_link l) (anchor_link i l) M = pre @ anchor_link i l @ post"
      by blast
    from a occ have "(pre @ original_link l) @ post = ((P @ gap) @ original_link l) @ rest" by simp
    moreover from b have "length (pre @ original_link l) \<le> length ((P @ gap) @ original_link l)"
      by simp
    ultimately obtain X where X: "post = X @ rest"
      by (metis append_eq_append_conv_if append_take_drop_id)
    have "replace_first (original_link l) (anchor_link i l) M = (pre @ anchor_link i l @ X) @ rest"
      by (simp add: c X)
    moreover from Cons.IH[OF r j', of "Suc i" "pre @ anchor_link i l @ X"] obtain pre' post' where
      "replace_links (Suc i) (take j' ls) ((pre @ anchor_link i l @ X) @ rest)
         = pre' @ original_link (ls ! j') @ post'" by blast
    ultimately show ?thesis
      unfolding Suc M_def[symmetric] by (simp add: M_def) blast
  qed
qed

lemma extracted_links_are_replaced:
  assumes "links = extract_markdown_links score decode fs s" "j < length links"
  shows "\<exists>pre post. replace_links 0 (take j links) s = pre @ original_link (links ! j) @ post"
  using replace_links_occurrence[of s links j 0 "[]"] extracted_in_order[of s score decode fs] assms
  by simp

section \<open>The rewritten message in the turn controller\<close>

lemma bot_turn_rewrites:
  assumes "history0 \<noteq> []" "failure response = None"
      and "extract (concat (chunks response)) = Inr links" "links \<noteq> []"
  shows "final_history (bot_turn extract response history0)
           = history0 @ [\<lparr>role = ''assistant'',
                           content = rewrite_message links (concat (chunks response))\<rparr>]"
    and "uncaught (bot_turn extract response history0) = None"
    and "length (published (bot_turn extract response history0)) = Suc (length (chunks response))"
    and "last (published (bot_turn extract response history0))
           = history0 @ [\<lparr>role = ''assistant'',
                           content = rewrite_message links (concat (chunks response))\<rparr>]"
proof -
  define m where "m = \<lparr>role = ''assistant'', content = []\<rparr>"
  define h1 where "h1 = fst (stream_loop (history0 @ [m]) (chunks response))"
  define p1 where "p1 = snd (stream_loop (history0 @ [m]) (chunks response))"
  have sl: "stream_loop (history0 @ [m]) (chunks response) = (h1, p1)"
    by (simp add: h1_def p1_def)
  have h1: "h1 = history0 @ [\<lparr>role = ''assistant'', content = concat (chunks response)\<rparr>]"
    using stream_loop_snoc[of history0 m "chunks response"] by (simp add: h1_def m_def)
  have lp: "length p1 = length (chunks response)"
    using stream_loop_snoc[of history0 m "chunks response"] by (simp add: p1_def)
  define h2 where "h2 = history0 @ [\<lparr>role = ''assistant'',
                           content = rewrite_message links (concat (chunks response))\<rparr>]"
  have bt: "bot_try extract response (history0 @ [m]) = (h2, p1 @ [h2], None)"
    using assms by (simp add: bot_try_def sl Let_def h1 h2_def)
  have turn: "bot_turn extract response history0
      = \<lparr>final_history = h2, published = p1 @ [h2], uncaught = None\<rparr>"
    using assms(1) bt by (simp add: bot_turn_def m_def[symmetric] Let_def)
  show "final_history (bot_turn extract response history0)
           = history0 @ [\<lparr>role = ''assistant'',
                           content = rewrite_message links (concat (chunks response))\<rparr>]"
    by (simp add: turn h2_def)
  show "uncaught (bot_turn extract response history0) = None" by (simp add: turn)
  show "length (published (bot_turn extract response history0)) = Suc (length (chunks response))"
    by (simp add: turn lp)
  show "last (published (bot_turn extract response history0))
           = history0 @ [\<lparr>role = ''assistant'',
                           content = rewrite_message links (concat (chunks response))\<rparr>]"
    by (simp add: turn h2_def)
qed

text \<open>
  Text without \<open>]\<close> holds no markdown link; the anchors are such text.
\<close>

lemma findall_from_no_bracket:
  "CHR '']'' \<notin> set s \<Longrightarrow> findall_from k s = []"
proof (induction k s rule: findall_from.induct)
  case (1 skip)
  show ?case by simp
next
  case (2 skip c cs)
  have "match_at (c # cs) = None"
  proof (cases "match_at (c # cs)")
    case None
    then show ?thesis .
  next
    case (Some m)
    obtain t u where "m = (t, u)" by (cases m)
    with Some match_at_SomeD[of "c # cs" t u] obtain rest where
      "c # cs = ''['' @ t @ '']('' @ u @ '')'' @ rest" by blast
    then have "CHR '']'' \<in> set (c # cs)" by (metis in_set_conv_decomp append_Cons append_assoc)
    with 2(4) show ?thesis by simp
  qed
  with 2 show ?case by (cases "0 < skip") auto
qed

lemma html_escape_no_bracket:
  "CHR '']'' \<notin> set s \<Longrightarrow> CHR '']'' \<notin> set (html_escape s)"
  by (induction s) (auto simp: html_escape_def escape_char_def)

lemma str_nat_digits: "set (str_nat n) \<subseteq> set ''0123456789''"
proof (induction n rule: str_nat.induct)
  case (1 n)
  have d: "digit_char k \<in> set ''0123456789''" for k by (simp add: digit_char_def)
  show ?case
  proof (cases "n < 10")
    case True
    then show ?thesis using d[of n] by (subst str_nat.simps) simp
  next
    case False
    then show ?thesis using "1.IH" d[of "n mod 10"] by (subst str_nat.simps) simp
  qed
qed

lemma anchor_id_no_bracket: "CHR '']'' \<notin> set (anchor_id i)"
  using str_nat_digits[of i] by (auto simp: anchor_id_def)

lemma anchor_link_no_bracket:
  "CHR '']'' \<notin> set (link_text r) \<Longrightarrow> CHR '']'' \<notin> set (anchor_link i r)"
  using anchor_id_no_bracket[of i] html_escape_no_bracket[of "link_text r"]
  by (simp add: anchor_link_def)

lemma extract_no_bracket:
  "CHR '']'' \<notin> set s \<Longrightarrow> extract_markdown_links score decode fs s = []"
  by (simp add: extract_markdown_links_def findall_def findall_from_no_bracket)

lemma extracted_link_text:
  "r \<in> set (extract_markdown_links score decode fs s) \<Longrightarrow> CHR '']'' \<notin> set (link_text r)"
  unfolding extract_markdown_links_eq
  using findall_parts(2) by (auto simp: make_link_info_def Let_def)

section \<open>Links and the places of their replacements\<close>

lemma pieces_from_text:
  "concat (map original_text (pieces_from k s)) = drop k s"
proof (induction k s rule: pieces_from.induct)
  case (1 skip)
  show ?case by simp
next
  case (2 skip c cs)
  show ?case
  proof (cases "0 < skip")
    case True
    then obtain k' where k: "skip = Suc k'" by (cases skip) auto
    with True 2(1) show ?thesis by simp
  next
    case False
    then have sk: "skip = 0" by simp
    show ?thesis
    proof (cases "match_at (c # cs)")
      case None
      with 2(2)[OF False None] sk show ?thesis by simp
    next
      case (Some m)
      obtain t u where m: "m = (t, u)" by (cases m)
      from match_at_SomeD[of "c # cs" t u] Some m obtain rest where
        e: "c # cs = ''['' @ t @ '']('' @ u @ '')'' @ rest" by blast
      then have cs: "cs = (t @ '']('' @ u @ '')'') @ rest" by simp
      have "length (t @ '']('' @ u @ '')'') = length t + length u + 3" by simp
      then have "drop (length t + length u + 3) cs = rest"
        unfolding cs by (metis append_eq_conv_conj)
      with 2(3)[OF False Some m[symmetric]] have
        "concat (map original_text (pieces_from (length t + length u + 3) cs)) = rest"
        by simp
      then have "concat (map original_text (pieces_from skip (c # cs))) = markdown_of (t, u) @ rest"
        using Some m sk by simp
      also have "\<dots> = c # cs" using e by (simp add: markdown_of_def)
      finally show ?thesis using sk by simp
    qed
  qed
qed

lemma pieces_text: "concat (map original_text (pieces s)) = s"
  by (simp add: pieces_def pieces_from_text)

lemma links_of_pieces_from: "links_of (pieces_from k s) = findall_from k s"
proof (induction k s rule: pieces_from.induct)
  case (1 skip)
  show ?case by simp
next
  case (2 skip c cs)
  show ?case
  proof (cases "0 < skip")
    case True
    with 2(1) show ?thesis by simp
  next
    case False
    show ?thesis
    proof (cases "match_at (c # cs)")
      case None
      with 2(2)[OF False None] False show ?thesis by simp
    next
      case (Some m)
      obtain t u where m: "m = (t, u)" by (cases m)
      with 2(3)[OF False Some m[symmetric]] False Some show ?thesis by simp
    qed
  qed
qed

lemma links_of_pieces: "links_of (pieces s) = findall s"
  by (simp add: pieces_def findall_def links_of_pieces_from)

lemma links_of_parts:
  "Link t u \<in> set ps \<Longrightarrow> (t, u) \<in> set (links_of ps)"
  by (induction ps rule: links_of.induct) auto

lemma pieces_parts:
  assumes "Link t u \<in> set (pieces s)"
  shows "CHR '']'' \<notin> set t" "CHR '')'' \<notin> set u"
  using links_of_parts[OF assms] findall_parts[of t u s] by (simp_all add: links_of_pieces)

lemma has_separator_Cons:
  "has_separator (a # s) = ((a = CHR '']'' \<and> s \<noteq> [] \<and> hd s = CHR ''('') \<or> has_separator s)"
  by (cases s) auto

lemma has_separator_occurrence:
  "s = pre @ '']('' @ post \<Longrightarrow> has_separator s"
proof (induction pre arbitrary: s)
  case Nil
  then show ?case by simp
next
  case (Cons a pre)
  then have "has_separator (pre @ '']('' @ post)" by blast
  with Cons.prems show ?case by (simp add: has_separator_Cons)
qed

lemma has_separator_snoc:
  "has_separator (s @ [b]) = (has_separator s \<or> (s \<noteq> [] \<and> last s = CHR '']'' \<and> b = CHR ''(''))"
proof (induction s)
  case Nil
  show ?case by simp
next
  case (Cons a s)
  show ?case
  proof (cases s)
    case Nil
    then show ?thesis by simp
  next
    case (Cons c s')
    with Cons.IH show ?thesis by (auto simp: has_separator_Cons)
  qed
qed

lemma no_bracket_oes: "CHR '']'' \<notin> set z \<Longrightarrow> only_external_separators z"
  unfolding only_external_separators_def by auto

lemma oes_Nil: "only_external_separators []"
  by (rule no_bracket_oes) simp

lemma occurrence_in_append:
  assumes "a @ b = pre @ '']('' @ post"
  shows "(\<exists>post1. a = pre @ '']('' @ post1 \<and> post = post1 @ b)
       \<or> (a = pre @ '']'' \<and> b = ''('' @ post)
       \<or> (\<exists>pre2. pre = a @ pre2 \<and> b = pre2 @ '']('' @ post)"
proof -
  from assms consider
      us where "a = pre @ us" "us @ b = '']('' @ post"
    | us where "a @ us = pre" "b = us @ '']('' @ post"
    by (auto simp: append_eq_append_conv2)
  then show ?thesis
  proof cases
    case 1
    show ?thesis
    proof (cases us)
      case Nil
      with 1 have "pre = a @ []" "b = [] @ '']('' @ post" by simp_all
      then show ?thesis by blast
    next
      case (Cons x us')
      with 1(2) have x: "x = CHR '']''" and r: "us' @ b = ''('' @ post" by simp_all
      show ?thesis
      proof (cases us')
        case Nil
        with 1(1) Cons x r show ?thesis by simp
      next
        case C2: (Cons y us'')
        with r have "y = CHR ''(''" "post = us'' @ b" by simp_all
        with 1(1) Cons x C2 have "a = pre @ '']('' @ us''" by simp
        with \<open>post = us'' @ b\<close> show ?thesis by blast
      qed
    qed
  next
    case 2
    then show ?thesis by blast
  qed
qed

lemma oes_append:
  assumes a: "only_external_separators a" and b: "only_external_separators b"
      and n: "\<not> (a \<noteq> [] \<and> last a = CHR '']'' \<and> b \<noteq> [] \<and> hd b = CHR ''('')"
  shows "only_external_separators (a @ b)"
  unfolding only_external_separators_def
proof (intro allI impI)
  fix pre post assume e: "a @ b = pre @ '']('' @ post"
  from occurrence_in_append[OF e]
  show "\<exists>w rest. post = w @ '')'' @ rest \<and> CHR '')'' \<notin> set w \<and> external w"
  proof (elim disjE exE conjE)
    fix post1 assume "a = pre @ '']('' @ post1" "post = post1 @ b"
    moreover from this(1) a obtain w rest where "post1 = w @ '')'' @ rest" "CHR '')'' \<notin> set w" "external w"
      unfolding only_external_separators_def by blast
    ultimately have "post = w @ '')'' @ (rest @ b) \<and> CHR '')'' \<notin> set w \<and> external w" by simp
    then show ?thesis by blast
  next
    assume "a = pre @ '']''" "b = ''('' @ post"
    with n show ?thesis by simp
  next
    fix pre2 assume "pre = a @ pre2" "b = pre2 @ '']('' @ post"
    with b show ?thesis unfolding only_external_separators_def by blast
  qed
qed

lemma oes_external_markdown:
  assumes "CHR '']'' \<notin> set t" "CHR '')'' \<notin> set u" "\<not> has_separator u" "external u"
  shows "only_external_separators (markdown_of (t, u))"
proof -
  have tail: "only_external_separators ('']('' @ u @ '')'')"
    unfolding only_external_separators_def
  proof (intro allI impI)
    fix pre post assume e: "'']('' @ u @ '')'' = pre @ '']('' @ post"
    show "\<exists>w rest. post = w @ '')'' @ rest \<and> CHR '')'' \<notin> set w \<and> external w"
    proof (cases pre)
      case Nil
      with e have "post = u @ '')'' @ []" by simp
      with assms show ?thesis by blast
    next
      case (Cons x pre')
      with e have "''('' @ u @ '')'' = pre' @ '']('' @ post" by simp
      then have "has_separator (''('' @ u @ '')'')" by (rule has_separator_occurrence)
      then have "has_separator (CHR ''('' # (u @ [CHR '')'']))" by simp
      then have "has_separator u"
        by (simp add: has_separator_Cons has_separator_snoc)
      with assms show ?thesis by simp
    qed
  qed
  have head: "only_external_separators (''['' @ t)"
    using assms(1) by (intro no_bracket_oes) simp
  have "only_external_separators ((''['' @ t) @ ('']('' @ u @ '')''))"
  proof (rule oes_append[OF head tail])
    have "last (''['' @ t) \<in> set (''['' @ t)" by (rule last_in_set) simp
    then have "last (''['' @ t) \<noteq> CHR '']''" using assms(1) by auto
    then show "\<not> (''['' @ t \<noteq> [] \<and> last (''['' @ t) = CHR '']''
               \<and> '']('' @ u @ '')'' \<noteq> [] \<and> hd ('']('' @ u @ '')'') = CHR ''('')"
      by blast
  qed
  then show ?thesis by (simp add: markdown_of_def)
qed

lemma oes_single: "only_external_separators [c]"
  unfolding only_external_separators_def
proof (intro allI impI)
  fix pre post assume "[c] = pre @ '']('' @ post"
  then have "length [c] = length (pre @ '']('' @ post)" by (rule arg_cong)
  then show "\<exists>w rest. post = w @ '')'' @ rest \<and> CHR '')'' \<notin> set w \<and> external w" by simp
qed

lemma replace_first_at:
  assumes q: "only_external_separators q" and t: "CHR '']'' \<notin> set t" and u: "CHR '')'' \<notin> set u"
      and ne: "\<not> external u"
  shows "replace_first (markdown_of (t, u)) new (q @ markdown_of (t, u) @ r) = q @ new @ r"
proof -
  define md where "md = markdown_of (t, u)"
  define z where "z = q @ ''['' @ t"
  have zo: "only_external_separators z"
    unfolding z_def
  proof (rule oes_append[OF q])
    show "only_external_separators (''['' @ t)" using t by (intro no_bracket_oes) simp
    show "\<not> (q \<noteq> [] \<and> last q = CHR '']'' \<and> ''['' @ t \<noteq> [] \<and> hd (''['' @ t) = CHR ''('')" by simp
  qed
  have zl: "last z \<noteq> CHR '']''"
  proof -
    have "last z = last (''['' @ t)" unfolding z_def by simp
    moreover have "last (''['' @ t) \<in> set (''['' @ t)" by (rule last_in_set) simp
    ultimately show ?thesis using t by auto
  qed
  have early: "length q \<le> length p" if e: "q @ md @ r = p @ md @ x" for p x
  proof (rule ccontr)
    assume "\<not> length q \<le> length p"
    then have lt: "length p < length q" by simp
    from e have "z @ ('']('' @ u @ '')'' @ r) = (p @ ''['' @ t) @ '']('' @ (u @ '')'' @ x)"
      by (simp add: z_def md_def markdown_of_def)
    from occurrence_in_append[OF this]
    show False
    proof (elim disjE exE conjE)
      fix post1 assume z1: "z = (p @ ''['' @ t) @ '']('' @ post1"
         and x1: "u @ '')'' @ x = post1 @ '']('' @ u @ '')'' @ r"
      from zo z1 obtain w rest where w: "post1 = w @ '')'' @ rest" "CHR '')'' \<notin> set w" "external w"
        unfolding only_external_separators_def by blast
      from x1 w(1) have "u @ CHR '')'' # x = w @ CHR '')'' # (rest @ '']('' @ u @ '')'' @ r)" by simp
      from append_sep_inject[OF u w(2) this] have "u = w" by simp
      with w(3) ne show False by simp
    next
      assume "z = (p @ ''['' @ t) @ '']''"
      then have "last z = CHR '']''" by simp
      with zl show False by simp
    next
      fix pre2 assume "p @ ''['' @ t = z @ pre2"
      then have "length (p @ ''['' @ t) = length (z @ pre2)" by (rule arg_cong)
      with lt show False by (simp add: z_def)
    qed
  qed
  from replace_first_spec[of "q @ md @ r" md new]
  show ?thesis
  proof (elim disjE exE conjE)
    fix pre post
    assume s: "q @ md @ r = pre @ md @ post"
       and m: "\<forall>p x. q @ md @ r = p @ md @ x \<longrightarrow> length pre \<le> length p"
       and rf: "replace_first md new (q @ md @ r) = pre @ new @ post"
    from m have "length pre \<le> length q" by blast
    moreover from early[OF s] have "length q \<le> length pre" .
    ultimately have "length pre = length q" by simp
    with s have "q = pre \<and> md @ r = md @ post" by (simp add: append_eq_append_conv)
    with rf show ?thesis by (simp add: md_def)
  next
    assume "\<forall>pre post. q @ md @ r \<noteq> pre @ md @ post"
    then show ?thesis by blast
  qed
qed

lemma anchor_link_ends:
  "anchor_link i l \<noteq> [] \<and> hd (anchor_link i l) = CHR ''<'' \<and> last (anchor_link i l) = CHR ''>''"
  by (simp add: anchor_link_def)

lemma markdown_of_ends:
  "markdown_of m \<noteq> [] \<and> hd (markdown_of m) = CHR ''['' \<and> last (markdown_of m) = CHR '')''"
  by (simp add: markdown_of_def)

lemma replace_links_in_place:
  assumes "only_external_separators q"
      and "\<forall>t u. Link t u \<in> set ps \<longrightarrow> CHR '']'' \<notin> set t \<and> CHR '')'' \<notin> set u"
      and "separated ps"
      and "\<not> (q \<noteq> [] \<and> last q = CHR '']'' \<and> ps \<noteq> [] \<and> hd ps = Gap CHR ''('')"
      and "map (\<lambda>l. (link_text l, original_link l)) ls
             = map (\<lambda>m. (fst m, markdown_of m)) (filter (\<lambda>m. \<not> external (snd m)) (links_of ps))"
  shows "replace_links i ls (q @ concat (map original_text ps)) = q @ in_place i ls ps
         \<and> only_external_separators (q @ in_place i ls ps)"
  using assms
proof (induction ps arbitrary: q i ls)
  case Nil
  then show ?case by simp
next
  case (Cons p ps)
  show ?case
  proof (cases p)
    case (Gap c)
    have o: "only_external_separators (q @ [c])"
    proof (rule oes_append[OF Cons.prems(1) oes_single])
      from Cons.prems(4) Gap
      show "\<not> (q \<noteq> [] \<and> last q = CHR '']'' \<and> [c] \<noteq> [] \<and> hd [c] = CHR ''('')" by auto
    qed
    have w: "\<forall>t u. Link t u \<in> set ps \<longrightarrow> CHR '']'' \<notin> set t \<and> CHR '')'' \<notin> set u"
      using Cons.prems(2) by simp
    have s: "separated ps" using Cons.prems(3) Gap by simp
    have b: "\<not> (q @ [c] \<noteq> [] \<and> last (q @ [c]) = CHR '']'' \<and> ps \<noteq> [] \<and> hd ps = Gap CHR ''('')"
      using Cons.prems(3) Gap by (cases ps) auto
    have m: "map (\<lambda>l. (link_text l, original_link l)) ls
             = map (\<lambda>m. (fst m, markdown_of m)) (filter (\<lambda>m. \<not> external (snd m)) (links_of ps))"
      using Cons.prems(5) Gap by simp
    from Cons.IH[OF o w s b m, of i] Gap show ?thesis by simp
  next
    case (Link t u)
    have tu: "CHR '']'' \<notin> set t" "CHR '')'' \<notin> set u" using Cons.prems(2) Link by simp_all
    have w: "\<forall>t u. Link t u \<in> set ps \<longrightarrow> CHR '']'' \<notin> set t \<and> CHR '')'' \<notin> set u"
      using Cons.prems(2) by simp
    have s: "separated ps" using Cons.prems(3) Link by simp
    show ?thesis
    proof (cases "external u")
      case True
      have hs: "\<not> has_separator u" using Cons.prems(3) Link True by simp
      have o: "only_external_separators (q @ markdown_of (t, u))"
      proof (rule oes_append[OF Cons.prems(1) oes_external_markdown[OF tu hs True]])
        show "\<not> (q \<noteq> [] \<and> last q = CHR '']'' \<and> markdown_of (t, u) \<noteq> []
                 \<and> hd (markdown_of (t, u)) = CHR ''('')"
          using markdown_of_ends[of "(t, u)"] by simp
      qed
      have b: "\<not> (q @ markdown_of (t, u) \<noteq> [] \<and> last (q @ markdown_of (t, u)) = CHR '']''
                 \<and> ps \<noteq> [] \<and> hd ps = Gap CHR ''('')"
        using markdown_of_ends[of "(t, u)"] by simp
      have m: "map (\<lambda>l. (link_text l, original_link l)) ls
             = map (\<lambda>m. (fst m, markdown_of m)) (filter (\<lambda>m. \<not> external (snd m)) (links_of ps))"
        using Cons.prems(5) Link True by simp
      from Cons.IH[OF o w s b m, of i] Link True show ?thesis by simp
    next
      case False
      from Cons.prems(5) Link False obtain l rest where
        ls: "ls = l # rest" and l: "link_text l = t" "original_link l = markdown_of (t, u)"
        and m: "map (\<lambda>l. (link_text l, original_link l)) rest
             = map (\<lambda>m. (fst m, markdown_of m)) (filter (\<lambda>m. \<not> external (snd m)) (links_of ps))"
        by (cases ls) auto
      have nb: "CHR '']'' \<notin> set (anchor_link i l)"
        using tu(1) l(1) by (intro anchor_link_no_bracket) simp
      have o: "only_external_separators (q @ anchor_link i l)"
      proof (rule oes_append[OF Cons.prems(1) no_bracket_oes[OF nb]])
        show "\<not> (q \<noteq> [] \<and> last q = CHR '']'' \<and> anchor_link i l \<noteq> []
                 \<and> hd (anchor_link i l) = CHR ''('')"
          using anchor_link_ends[of i l] by simp
      qed
      have b: "\<not> (q @ anchor_link i l \<noteq> [] \<and> last (q @ anchor_link i l) = CHR '']''
                 \<and> ps \<noteq> [] \<and> hd ps = Gap CHR ''('')"
        using anchor_link_ends[of i l] by simp
      have r: "replace_first (original_link l) (anchor_link i l)
                 (q @ markdown_of (t, u) @ concat (map original_text ps))
               = q @ anchor_link i l @ concat (map original_text ps)"
        unfolding l(2) by (rule replace_first_at[OF Cons.prems(1) tu False])
      from Cons.IH[OF o w s b m, of "Suc i"] r Link False ls show ?thesis by simp
    qed
  qed
qed

lemma extracted_links_of_pieces:
  "map (\<lambda>l. (link_text l, original_link l)) (extract_markdown_links score decode fs s)
     = map (\<lambda>m. (fst m, markdown_of m)) (filter (\<lambda>m. \<not> external (snd m)) (links_of (pieces s)))"
proof -
  have p: "(\<lambda>(t, u). \<not> (startswith u ''http://'' \<or> startswith u ''https://''))
             = (\<lambda>m. \<not> external (snd m))"
    by (auto simp: external_def fun_eq_iff)
  show ?thesis
    unfolding extract_markdown_links_eq links_of_pieces p
    by (simp add: make_link_info_def Let_def markdown_of_def case_prod_unfold comp_def)
qed

lemma rewritten_in_place:
  assumes "separators_only s"
  shows "replace_links 0 (extract_markdown_links score decode fs s) s
           = in_place 0 (extract_markdown_links score decode fs s) (pieces s)"
    and "only_external_separators (in_place 0 (extract_markdown_links score decode fs s) (pieces s))"
proof -
  have w: "\<forall>t u. Link t u \<in> set (pieces s) \<longrightarrow> CHR '']'' \<notin> set t \<and> CHR '')'' \<notin> set u"
    using pieces_parts by blast
  have s: "separated (pieces s)" using assms by (simp add: separators_only_def)
  have b: "\<not> ([] \<noteq> [] \<and> last [] = CHR '']'' \<and> pieces s \<noteq> [] \<and> hd (pieces s) = Gap CHR ''('')"
    by simp
  from replace_links_in_place[OF oes_Nil w s b extracted_links_of_pieces, where i = 0]
  show "replace_links 0 (extract_markdown_links score decode fs s) s
           = in_place 0 (extract_markdown_links score decode fs s) (pieces s)"
    and "only_external_separators (in_place 0 (extract_markdown_links score decode fs s) (pieces s))"
    by (simp_all add: pieces_text)
qed

section \<open>Anchors and cards\<close>

lemma extracted_are_local_matches:
  "map (\<lambda>l. (link_text l, original_link l)) (extract_markdown_links score decode fs s)
     = map (\<lambda>m. (fst m, markdown_of m)) (filter (\<lambda>m. \<not> external (snd m)) (findall s))"
  using extracted_links_of_pieces[of score decode fs s] by (simp add: links_of_pieces)

lemma sample_message_links:
  "extract_markdown_links demo_score plain_decode fs_missing ''[x](http://e) [a](b) [a](b)''
     = duplicate_links"
proof -
  have f: "findall ''[x](http://e) [a](b) [a](b)''
             = [(''x'', ''http://e''), (''a'', ''b''), (''a'', ''b'')]"
    by (simp add: findall_def match_at_def)
  show ?thesis
    by (simp add: extract_markdown_links_def f make_link_info_def scan_files_directory_def
          scan_body_def fs_missing_def find_best_match_def candidate_filename_def path_name_def
          unquote_def first_segment_def Let_def duplicate_links_def)
qed

lemma sample_message_pieces:
  "pieces ''[x](http://e) [a](b) [a](b)''
     = [Link ''x'' ''http://e'', Gap CHR '' '', Link ''a'' ''b'', Gap CHR '' '', Link ''a'' ''b'']"
  by (simp add: pieces_def match_at_def)

text \<open>
  C1 (as amended).  For a non-empty link sequence the rewritten message is the message
  after the inline replacements, followed once, at its end, by the container holding one
  card per link, card \<open>i\<close> being built from the link at position \<open>i\<close>.  Step \<open>i\<close> of
  the replacements turns the message left by the steps before it into the same message
  with the leftmost occurrence of the markdown of link \<open>i\<close> replaced by its anchor (and
  leaves it as it is when there is no occurrence).  The anchor of link \<open>i\<close> refers to
  \<open>source-card-i\<close> and card \<open>i\<close> carries that id; ids of different positions differ,
  so links with the same text and URL get distinct cards.  This message is what \<open>bot\<close>
  stores in the assistant entry.  When the links are the ones extracted from the message,
  every step finds an occurrence to replace, and the links are the matches of the pattern
  that are not external, in their order of appearance.  When moreover every \<open>](\<close> of the
  message is the one of a match or lies in the target of a match that is not external,
  the anchor of link \<open>i\<close> stands exactly where the \<open>i\<close>-th such match stood and
  the rest of the message is unchanged: the replacements yield \<open>in_place\<close> of the pieces
  of the message, which spell the message and hold its matches.
\<close>

theorem rewrite_message_anchors_and_cards:
  assumes ne: "links \<noteq> []"
  shows
   \<open>rewrite_message links msg
      = replace_links 0 links msg @ [CHR 0x0A, CHR 0x0A] @ ''<div class="source-cards-container">''
          @ concat (map (\<lambda>i. card_html i (links ! i)) [0..<length links]) @ ''</div>''
    \<and> (\<forall>i<length links.
          (\<exists>pre post.
              replace_links 0 (take i links) msg = pre @ original_link (links ! i) @ post
            \<and> (\<forall>p q. replace_links 0 (take i links) msg = p @ original_link (links ! i) @ q
                     \<longrightarrow> length pre \<le> length p)
            \<and> replace_links 0 (take (Suc i) links) msg = pre @ anchor_link i (links ! i) @ post)
        \<or> ((\<forall>pre post. replace_links 0 (take i links) msg \<noteq> pre @ original_link (links ! i) @ post)
            \<and> replace_links 0 (take (Suc i) links) msg = replace_links 0 (take i links) msg))
    \<and> (\<forall>i<length links. \<exists>rest. anchor_link i (links ! i) = ''<a href="#'' @ anchor_id i @ rest)
    \<and> (\<forall>i<length links. \<exists>rest. card_html i (links ! i)
                                  = ''<div class="source-card" id="'' @ anchor_id i @ rest)
    \<and> (\<forall>i j. anchor_id i = anchor_id j \<longrightarrow> i = j)
    \<and> (\<forall>history0 cs. history0 \<noteq> [] \<longrightarrow>
          final_history (bot_turn (\<lambda>t. Inr links) \<lparr>chunks = cs, failure = None\<rparr> history0)
            = history0 @ [\<lparr>role = ''assistant'', content = rewrite_message links (concat cs)\<rparr>])
    \<and> (\<forall>score decode fs. links = extract_markdown_links score decode fs msg \<longrightarrow>
          (\<forall>i<length links. \<exists>pre post.
              replace_links 0 (take i links) msg = pre @ original_link (links ! i) @ post))
    \<and> (\<forall>score decode fs. links = extract_markdown_links score decode fs msg \<longrightarrow>
          map (\<lambda>l. (link_text l, original_link l)) links
            = map (\<lambda>m. (fst m, markdown_of m)) (filter (\<lambda>m. \<not> external (snd m)) (findall msg)))
    \<and> (\<forall>score decode fs.
          links = extract_markdown_links score decode fs msg \<and> separators_only msg \<longrightarrow>
            replace_links 0 links msg = in_place 0 links (pieces msg)
          \<and> concat (map original_text (pieces msg)) = msg
          \<and> links_of (pieces msg) = findall msg)\<close>
proof (intro conjI allI impI)
  show \<open>rewrite_message links msg
      = replace_links 0 links msg @ [CHR 0x0A, CHR 0x0A] @ ''<div class="source-cards-container">''
          @ concat (map (\<lambda>i. card_html i (links ! i)) [0..<length links]) @ ''</div>''\<close>
    by (simp add: rewrite_message_def cards_html_def cards_loop_eq)
next
  fix i assume i: "i < length links"
  show "(\<exists>pre post.
              replace_links 0 (take i links) msg = pre @ original_link (links ! i) @ post
            \<and> (\<forall>p q. replace_links 0 (take i links) msg = p @ original_link (links ! i) @ q
                     \<longrightarrow> length pre \<le> length p)
            \<and> replace_links 0 (take (Suc i) links) msg = pre @ anchor_link i (links ! i) @ post)
        \<or> ((\<forall>pre post. replace_links 0 (take i links) msg \<noteq> pre @ original_link (links ! i) @ post)
            \<and> replace_links 0 (take (Suc i) links) msg = replace_links 0 (take i links) msg)"
    unfolding replace_links_step[OF i] by (rule replace_first_spec)
next
  fix i assume "i < length links"
  show \<open>\<exists>rest. anchor_link i (links ! i) = ''<a href="#'' @ anchor_id i @ rest\<close>
    by (simp add: anchor_link_def)
next
  fix i assume "i < length links"
  show \<open>\<exists>rest. card_html i (links ! i) = ''<div class="source-card" id="'' @ anchor_id i @ rest\<close>
    by (simp add: card_html_def)
next
  fix i j assume "anchor_id i = anchor_id j"
  then show "i = j" by (rule anchor_id_inject)
next
  fix history0 :: "chat_message list" and cs
  assume "history0 \<noteq> []"
  then show "final_history (bot_turn (\<lambda>t. Inr links) \<lparr>chunks = cs, failure = None\<rparr> history0)
            = history0 @ [\<lparr>role = ''assistant'', content = rewrite_message links (concat cs)\<rparr>]"
    using bot_turn_rewrites(1)[of history0 "\<lparr>chunks = cs, failure = None\<rparr>" "\<lambda>t. Inr links" links] ne
    by simp
next
  fix score decode fs i
  assume "links = extract_markdown_links score decode fs msg" "i < length links"
  then show "\<exists>pre post. replace_links 0 (take i links) msg = pre @ original_link (links ! i) @ post"
    by (rule extracted_links_are_replaced)
next
  fix score decode fs
  assume "links = extract_markdown_links score decode fs msg"
  then show "map (\<lambda>l. (link_text l, original_link l)) links
            = map (\<lambda>m. (fst m, markdown_of m)) (filter (\<lambda>m. \<not> external (snd m)) (findall msg))"
    by (simp add: extracted_are_local_matches)
next
  fix score decode fs
  assume "links = extract_markdown_links score decode fs msg \<and> separators_only msg"
  then show "replace_links 0 links msg = in_place 0 links (pieces msg)"
    using rewritten_in_place(1)[of msg score decode fs] by simp
next
  show "concat (map original_text (pieces msg)) = msg" by (rule pieces_text)
next
  show "links_of (pieces msg) = findall msg" by (rule links_of_pieces)
qed

text \<open>
  C1 (as amended) at a message with an external link followed by the same local link
  twice.
\<close>

theorem rewrite_message_anchors_and_cards_witness:
  \<open>separators_only ''[x](http://e) [a](b) [a](b)''
   \<and> extract_markdown_links demo_score plain_decode fs_missing ''[x](http://e) [a](b) [a](b)''
       = duplicate_links
   \<and> rewrite_message duplicate_links ''[x](http://e) [a](b) [a](b)''
     = ''[x](http://e) <a href="#source-card-0" onclick="document.getElementById('source-card-0').scrollIntoView({behavior: 'smooth'}); return false;">a</a> <a href="#source-card-1" onclick="document.getElementById('source-card-1').scrollIntoView({behavior: 'smooth'}); return false;">a</a>''
       @ [CHR 0x0A, CHR 0x0A]
       @ ''<div class="source-cards-container"><div class="source-card" id="source-card-0"><div class="card-icon">''
       @ card_icon
       @ ''</div><div class="card-title">a</div><a href="b" class="card-link" target="_blank">Download</a></div><div class="source-card" id="source-card-1"><div class="card-icon">''
       @ card_icon
       @ ''</div><div class="card-title">a</div><a href="b" class="card-link" target="_blank">Download</a></div></div>''\<close>
proof -
  have ne: "duplicate_links \<noteq> []" by (simp add: duplicate_links_def)
  have up: "[0..<length duplicate_links] = [0, Suc 0]"
    by (simp add: duplicate_links_def upt_conv_Cons)
  have sep: "separators_only ''[x](http://e) [a](b) [a](b)''"
    by (simp add: separators_only_def sample_message_pieces external_def)
  note main = rewrite_message_anchors_and_cards[OF ne, of "''[x](http://e) [a](b) [a](b)''"]
  have whole: \<open>rewrite_message duplicate_links ''[x](http://e) [a](b) [a](b)''
      = replace_links 0 duplicate_links ''[x](http://e) [a](b) [a](b)'' @ [CHR 0x0A, CHR 0x0A]
          @ ''<div class="source-cards-container">''
          @ concat (map (\<lambda>i. card_html i (duplicate_links ! i)) [0..<length duplicate_links])
          @ ''</div>''\<close>
    by (rule main[THEN conjunct1])
  have "duplicate_links = extract_markdown_links demo_score plain_decode fs_missing
                            ''[x](http://e) [a](b) [a](b)''
        \<and> separators_only ''[x](http://e) [a](b) [a](b)''"
    using sep by (simp add: sample_message_links)
  from main[THEN conjunct2, THEN conjunct2, THEN conjunct2, THEN conjunct2, THEN conjunct2,
            THEN conjunct2, THEN conjunct2, THEN conjunct2, rule_format, OF this]
  have body: "replace_links 0 duplicate_links ''[x](http://e) [a](b) [a](b)''
                = in_place 0 duplicate_links (pieces ''[x](http://e) [a](b) [a](b)'')"
    by (rule conjunct1)
  have placed: \<open>in_place 0 duplicate_links (pieces ''[x](http://e) [a](b) [a](b)'')
     = ''[x](http://e) <a href="#source-card-0" onclick="document.getElementById('source-card-0').scrollIntoView({behavior: 'smooth'}); return false;">a</a> <a href="#source-card-1" onclick="document.getElementById('source-card-1').scrollIntoView({behavior: 'smooth'}); return false;">a</a>''\<close>
    unfolding sample_message_pieces
    by (simp add: duplicate_links_def external_def markdown_of_def anchor_link_def anchor_id_def
          str_nat_small html_escape_def escape_char_def)
  have cards: \<open>concat (map (\<lambda>i. card_html i (duplicate_links ! i)) [0..<length duplicate_links])
     = ''<div class="source-card" id="source-card-0"><div class="card-icon">''
       @ card_icon
       @ ''</div><div class="card-title">a</div><a href="b" class="card-link" target="_blank">Download</a></div><div class="source-card" id="source-card-1"><div class="card-icon">''
       @ card_icon
       @ ''</div><div class="card-title">a</div><a href="b" class="card-link" target="_blank">Download</a></div>''\<close>
    unfolding up
    by (simp add: duplicate_links_def anchor_id_def str_nat_small card_html_def
          html_escape_def escape_char_def)
  have final: \<open>rewrite_message duplicate_links ''[x](http://e) [a](b) [a](b)''
     = ''[x](http://e) <a href="#source-card-0" onclick="document.getElementById('source-card-0').scrollIntoView({behavior: 'smooth'}); return false;">a</a> <a href="#source-card-1" onclick="document.getElementById('source-card-1').scrollIntoView({behavior: 'smooth'}); return false;">a</a>''
       @ [CHR 0x0A, CHR 0x0A]
       @ ''<div class="source-cards-container"><div class="source-card" id="source-card-0"><div class="card-icon">''
       @ card_icon
       @ ''</div><div class="card-title">a</div><a href="b" class="card-link" target="_blank">Download</a></div><div class="source-card" id="source-card-1"><div class="card-icon">''
       @ card_icon
       @ ''</div><div class="card-title">a</div><a href="b" class="card-link" target="_blank">Download</a></div></div>''\<close>
    unfolding whole body placed cards by simp
  show ?thesis by (rule conjI[OF sep conjI[OF sample_message_links final]])
qed

text \<open>
  C1 as stated fails in its last part.  The markdown of the second extracted link of this
  message also occurs inside the target of the external link before it: the anchor of
  link 1 is written there, ahead of the anchor of link 0, and the second link itself stays
  markdown.
\<close>

theorem rewrite_message_anchor_order_counterexample:
  \<open>findall ''[x](http://e/[b](c) [a](d) [b](c)''
     = [(''x'', ''http://e/[b](c''), (''a'', ''d''), (''b'', ''c'')]
   \<and> map original_link (extract_markdown_links demo_score plain_decode fs_missing
                          ''[x](http://e/[b](c) [a](d) [b](c)'')
     = [''[a](d)'', ''[b](c)'']
   \<and> replace_links 0
        (extract_markdown_links demo_score plain_decode fs_missing
           ''[x](http://e/[b](c) [a](d) [b](c)'')
        ''[x](http://e/[b](c) [a](d) [b](c)''
     = ''[x](http://e/<a href="#source-card-1" onclick="document.getElementById('source-card-1').scrollIntoView({behavior: 'smooth'}); return false;">b</a> <a href="#source-card-0" onclick="document.getElementById('source-card-0').scrollIntoView({behavior: 'smooth'}); return false;">a</a> [b](c)''\<close>
proof -
  have f: "findall ''[x](http://e/[b](c) [a](d) [b](c)''
     = [(''x'', ''http://e/[b](c''), (''a'', ''d''), (''b'', ''c'')]"
    by (simp add: findall_def match_at_def)
  have e: "extract_markdown_links demo_score plain_decode fs_missing
             ''[x](http://e/[b](c) [a](d) [b](c)''
        = [\<lparr>filename = ''a'', url = ''d'', original_link = ''[a](d)'', link_text = ''a'',
            fuzzy_matched = False\<rparr>,
           \<lparr>filename = ''b'', url = ''c'', original_link = ''[b](c)'', link_text = ''b'',
            fuzzy_matched = False\<rparr>]"
    by (simp add: extract_markdown_links_def f make_link_info_def scan_files_directory_def
          scan_body_def fs_missing_def find_best_match_def candidate_filename_def path_name_def
          unquote_def first_segment_def Let_def)
  have m: "map original_link (extract_markdown_links demo_score plain_decode fs_missing
                          ''[x](http://e/[b](c) [a](d) [b](c)'')
     = [''[a](d)'', ''[b](c)'']"
    unfolding e by simp
  have r: \<open>replace_links 0
        (extract_markdown_links demo_score plain_decode fs_missing
           ''[x](http://e/[b](c) [a](d) [b](c)'')
        ''[x](http://e/[b](c) [a](d) [b](c)''
     = ''[x](http://e/<a href="#source-card-1" onclick="document.getElementById('source-card-1').scrollIntoView({behavior: 'smooth'}); return false;">b</a> <a href="#source-card-0" onclick="document.getElementById('source-card-0').scrollIntoView({behavior: 'smooth'}); return false;">a</a> [b](c)''\<close>
    unfolding e
    by (simp add: anchor_link_def anchor_id_def str_nat_small html_escape_def escape_char_def)
  show ?thesis by (rule conjI[OF f conjI[OF m r]])
qed

section \<open>Running the rewriting stage twice\<close>

lemma oes_after_plain:
  assumes "CHR '']'' \<notin> set a" "only_external_separators b"
  shows "only_external_separators (a @ b)"
proof (rule oes_append[OF no_bracket_oes[OF assms(1)] assms(2)])
  show "\<not> (a \<noteq> [] \<and> last a = CHR '']'' \<and> b \<noteq> [] \<and> hd b = CHR ''('')"
  proof
    assume h: "a \<noteq> [] \<and> last a = CHR '']'' \<and> b \<noteq> [] \<and> hd b = CHR ''(''"
    then have "last a \<in> set a" by (intro last_in_set) simp
    with h assms(1) show False by simp
  qed
qed

lemma oes_before_plain:
  assumes "only_external_separators a" "CHR '']'' \<notin> set b" "b \<noteq> [] \<longrightarrow> hd b \<noteq> CHR ''(''"
  shows "only_external_separators (a @ b)"
  by (rule oes_append[OF assms(1) no_bracket_oes[OF assms(2)]]) (use assms(3) in blast)

lemma escape_char_oes: "only_external_separators (escape_char c)"
proof (cases "escape_char c = [c]")
  case True
  then show ?thesis by (simp add: oes_single)
next
  case False
  then have "CHR '']'' \<notin> set (escape_char c)"
    by (auto simp: escape_char_def split: if_splits)
  then show ?thesis by (rule no_bracket_oes)
qed

lemma escape_char_ends:
  "escape_char c \<noteq> []"
  "last (escape_char c) = CHR '']'' \<Longrightarrow> c = CHR '']''"
  "hd (escape_char c) = CHR ''('' \<Longrightarrow> c = CHR ''(''"
  by (auto simp: escape_char_def split: if_splits)

lemma html_escape_Cons: "html_escape (c # s) = escape_char c @ html_escape s"
  by (simp add: html_escape_def)

lemma html_escape_hd:
  "html_escape s \<noteq> [] \<Longrightarrow> hd (html_escape s) = CHR ''('' \<Longrightarrow> s \<noteq> [] \<and> hd s = CHR ''(''"
proof (cases s)
  case Nil
  assume "html_escape s \<noteq> []"
  with Nil show ?thesis by (simp add: html_escape_def)
next
  case (Cons c r)
  assume "hd (html_escape s) = CHR ''(''"
  with Cons escape_char_ends(1)[of c] have "hd (escape_char c) = CHR ''(''"
    by (simp add: html_escape_Cons)
  with Cons escape_char_ends(3)[of c] show ?thesis by simp
qed

lemma html_escape_oes:
  "\<not> has_separator s \<Longrightarrow> only_external_separators (html_escape s)"
proof (induction s)
  case Nil
  show ?case by (simp add: html_escape_def oes_Nil)
next
  case (Cons c s)
  from Cons.prems have ns: "\<not> has_separator s"
    and nb: "\<not> (c = CHR '']'' \<and> s \<noteq> [] \<and> hd s = CHR ''('')"
    by (simp_all add: has_separator_Cons)
  have "only_external_separators (escape_char c @ html_escape s)"
  proof (rule oes_append[OF escape_char_oes Cons.IH[OF ns]])
    show "\<not> (escape_char c \<noteq> [] \<and> last (escape_char c) = CHR '']''
             \<and> html_escape s \<noteq> [] \<and> hd (html_escape s) = CHR ''('')"
      using nb escape_char_ends(2)[of c] html_escape_hd[of s] by blast
  qed
  then show ?case by (simp add: html_escape_Cons)
qed

lemma card_icon_plain: "CHR '']'' \<notin> set card_icon"
  by (simp add: card_icon_def)

lemma card_html_oes:
  assumes "\<not> has_separator (filename r)" "\<not> has_separator (url r)"
  shows "only_external_separators (card_html i r)"
proof -
  have a: \<open>CHR '']'' \<notin> set (''<div class="source-card" id="'' @ anchor_id i
              @ ''"><div class="card-icon">'' @ card_icon @ ''</div><div class="card-title">'')\<close>
    using anchor_id_no_bracket[of i] card_icon_plain by simp
  have 1: \<open>only_external_separators
        (html_escape (url r) @ ''" class="card-link" target="_blank">Download</a></div>'')\<close>
    by (rule oes_before_plain[OF html_escape_oes[OF assms(2)]]) simp_all
  have 2: \<open>only_external_separators
        (''</div><a href="'' @ html_escape (url r)
           @ ''" class="card-link" target="_blank">Download</a></div>'')\<close>
    by (rule oes_after_plain[OF _ 1]) simp
  have 3: \<open>only_external_separators
        (html_escape (filename r) @ ''</div><a href="'' @ html_escape (url r)
           @ ''" class="card-link" target="_blank">Download</a></div>'')\<close>
    by (rule oes_append[OF html_escape_oes[OF assms(1)] 2]) simp
  have \<open>only_external_separators
        ((''<div class="source-card" id="'' @ anchor_id i
              @ ''"><div class="card-icon">'' @ card_icon @ ''</div><div class="card-title">'')
         @ html_escape (filename r) @ ''</div><a href="'' @ html_escape (url r)
           @ ''" class="card-link" target="_blank">Download</a></div>'')\<close>
    by (rule oes_after_plain[OF a 3])
  then show ?thesis by (simp add: card_html_def)
qed

lemma card_html_last: "card_html i r \<noteq> [] \<and> last (card_html i r) = CHR ''>''"
  by (simp add: card_html_def)

lemma concat_oes:
  "\<forall>x\<in>set xs. only_external_separators x \<and> x \<noteq> [] \<and> last x \<noteq> CHR '']''
   \<Longrightarrow> only_external_separators (concat xs)"
proof (induction xs)
  case Nil
  show ?case by (simp add: oes_Nil)
next
  case (Cons x xs)
  then have x: "only_external_separators x" "last x \<noteq> CHR '']''"
    and r: "only_external_separators (concat xs)" by simp_all
  have "only_external_separators (x @ concat xs)"
    by (rule oes_append[OF x(1) r]) (use x(2) in simp)
  then show ?case by simp
qed

lemma cards_html_oes:
  assumes "\<forall>r\<in>set links. \<not> has_separator (filename r) \<and> \<not> has_separator (url r)"
  shows "only_external_separators (cards_html (cards_loop 0 links []))"
proof -
  have c: "only_external_separators (concat (map (\<lambda>k. card_html k (links ! k)) [0..<length links]))"
  proof (rule concat_oes, rule ballI)
    fix x assume "x \<in> set (map (\<lambda>k. card_html k (links ! k)) [0..<length links])"
    then obtain k where k: "k < length links" "x = card_html k (links ! k)" by auto
    from k(1) assms have "\<not> has_separator (filename (links ! k))" "\<not> has_separator (url (links ! k))"
      by simp_all
    from card_html_oes[OF this, of k] card_html_last[of k "links ! k"] k(2)
    show "only_external_separators x \<and> x \<noteq> [] \<and> last x \<noteq> CHR '']''" by simp
  qed
  have 1: "only_external_separators
             (concat (map (\<lambda>k. card_html k (links ! k)) [0..<length links]) @ ''</div>'')"
    by (rule oes_before_plain[OF c]) simp_all
  have \<open>only_external_separators
          (([CHR 0x0A, CHR 0x0A] @ ''<div class="source-cards-container">'')
           @ concat (map (\<lambda>k. card_html k (links ! k)) [0..<length links]) @ ''</div>'')\<close>
    by (rule oes_after_plain[OF _ 1]) simp
  then show ?thesis by (simp add: cards_html_def cards_loop_eq)
qed

lemma cards_html_hd: "cards_html cs \<noteq> [] \<and> hd (cards_html cs) = CHR 0x0A"
  by (simp add: cards_html_def)

lemma occurs_in_order_member:
  "occurs_in_order s xs \<Longrightarrow> x \<in> set xs \<Longrightarrow> \<exists>pre post. s = pre @ x @ post"
proof (induction xs arbitrary: s)
  case Nil
  then show ?case by simp
next
  case (Cons y ys)
  from Cons.prems(1) obtain gap rest where s: "s = gap @ y @ rest" and r: "occurs_in_order rest ys"
    by auto
  show ?case
  proof (cases "x = y")
    case True
    with s show ?thesis by blast
  next
    case False
    with Cons.prems(2) have "x \<in> set ys" by simp
    from Cons.IH[OF r this] obtain pre post where "rest = pre @ x @ post" by blast
    with s have "s = (gap @ y @ pre) @ x @ post" by simp
    then show ?thesis by blast
  qed
qed

lemma oes_matches_external:
  assumes "only_external_separators z" "(t, u) \<in> set (findall z)"
  shows "external u"
proof -
  have "occurs_in_order z (map markdown_of (findall z))"
    using findall_from_in_order[of 0 z] by (simp add: findall_def)
  moreover have "markdown_of (t, u) \<in> set (map markdown_of (findall z))"
    using assms(2) by force
  ultimately obtain pre post where "z = pre @ markdown_of (t, u) @ post"
    using occurs_in_order_member by blast
  then have z: "z = (pre @ ''['' @ t) @ '']('' @ (u @ '')'' @ post)"
    by (simp add: markdown_of_def)
  with assms(1) obtain w rest where
    w: "u @ '')'' @ post = w @ '')'' @ rest" "CHR '')'' \<notin> set w" "external w"
    unfolding only_external_separators_def by blast
  from w(1) have "u @ CHR '')'' # post = w @ CHR '')'' # rest" by simp
  from append_sep_inject[OF findall_parts(4)[OF assms(2)] w(2) this] w(3)
  show ?thesis by simp
qed

lemma oes_no_links:
  assumes "only_external_separators z"
  shows "extract_markdown_links score decode fs z = []"
proof -
  have "filter (\<lambda>(t, u). \<not> (startswith u ''http://'' \<or> startswith u ''https://'')) (findall z) = []"
    using oes_matches_external[OF assms] by (auto simp: filter_empty_conv external_def)
  then show ?thesis unfolding extract_markdown_links_eq by simp
qed

lemma rewrite_pass_oes:
  assumes sep: "separators_only msg"
      and cards: "\<forall>r\<in>set (extract_markdown_links score decode fs msg).
                    \<not> has_separator (filename r) \<and> \<not> has_separator (url r)"
  shows "only_external_separators (rewrite_pass score decode fs msg)"
proof (cases "extract_markdown_links score decode fs msg = []")
  case True
  have "only_external_separators (in_place 0 [] (pieces msg))"
    using rewritten_in_place(2)[OF sep, of score decode fs] True by simp
  moreover have "replace_links 0 [] msg = in_place 0 [] (pieces msg)"
    using rewritten_in_place(1)[OF sep, of score decode fs] True by simp
  ultimately show ?thesis using True by (simp add: rewrite_pass_def)
next
  case False
  define links where "links = extract_markdown_links score decode fs msg"
  have b: "only_external_separators (replace_links 0 links msg)"
    using rewritten_in_place[OF sep, of score decode fs] by (simp add: links_def)
  have c: "only_external_separators (cards_html (cards_loop 0 links []))"
    using cards by (intro cards_html_oes) (simp add: links_def)
  have "only_external_separators (replace_links 0 links msg @ cards_html (cards_loop 0 links []))"
    by (rule oes_append[OF b c]) (use cards_html_hd[of "cards_loop 0 links []"] in simp)
  with False show ?thesis by (simp add: rewrite_pass_def rewrite_message_def links_def Let_def)
qed

text \<open>
  C6 (as amended).  Let every \<open>](\<close> of the message be the one of a match of the link
  pattern or lie in the target of a match that is not external, and let no file name and
  no URL of an extracted record contain \<open>](\<close>.  Then extraction on the rewritten message
  yields no link, and a second rewriting pass leaves the rewritten message unchanged.  The
  anchor of an extracted link contains no \<open>]\<close>, so extraction on it yields nothing.
\<close>

theorem second_pass_unchanged_when_separated:
  assumes sep: "separators_only msg"
      and cards: "\<forall>r\<in>set (extract_markdown_links score decode fs msg).
                    \<not> has_separator (filename r) \<and> \<not> has_separator (url r)"
  shows "extract_markdown_links score decode fs (rewrite_pass score decode fs msg) = []
       \<and> rewrite_pass score decode fs (rewrite_pass score decode fs msg)
           = rewrite_pass score decode fs msg
       \<and> (\<forall>r\<in>set (extract_markdown_links score decode fs msg). \<forall>i.
             CHR '']'' \<notin> set (anchor_link i r)
           \<and> extract_markdown_links score decode fs (anchor_link i r) = [])"
proof (intro conjI ballI allI)
  show e: "extract_markdown_links score decode fs (rewrite_pass score decode fs msg) = []"
    by (rule oes_no_links[OF rewrite_pass_oes[OF sep cards]])
  then show "rewrite_pass score decode fs (rewrite_pass score decode fs msg)
           = rewrite_pass score decode fs msg"
    by (simp add: rewrite_pass_def[of score decode fs "rewrite_pass score decode fs msg"])
next
  fix r i assume r: "r \<in> set (extract_markdown_links score decode fs msg)"
  then show nb: "CHR '']'' \<notin> set (anchor_link i r)"
    using extracted_link_text anchor_link_no_bracket by blast
  then show "extract_markdown_links score decode fs (anchor_link i r) = []"
    by (rule extract_no_bracket)
qed

text \<open>
  C6 (as amended) at a message with an external and a local link; its rewritten form
  still contains the markdown of the external link.
\<close>

theorem second_pass_unchanged_when_separated_witness:
  "separators_only ''[docs](https://e.org/a.pdf) and [a](b)''
   \<and> extract_markdown_links demo_score plain_decode fs_missing
       ''[docs](https://e.org/a.pdf) and [a](b)''
     = [\<lparr>filename = ''a'', url = ''b'', original_link = ''[a](b)'', link_text = ''a'',
         fuzzy_matched = False\<rparr>]
   \<and> extract_markdown_links demo_score plain_decode fs_missing
       (rewrite_pass demo_score plain_decode fs_missing ''[docs](https://e.org/a.pdf) and [a](b)'')
     = []
   \<and> rewrite_pass demo_score plain_decode fs_missing
       (rewrite_pass demo_score plain_decode fs_missing ''[docs](https://e.org/a.pdf) and [a](b)'')
     = rewrite_pass demo_score plain_decode fs_missing ''[docs](https://e.org/a.pdf) and [a](b)''"
proof -
  have p: "pieces ''[docs](https://e.org/a.pdf) and [a](b)''
     = [Link ''docs'' ''https://e.org/a.pdf'', Gap CHR '' '', Gap CHR ''a'', Gap CHR ''n'',
        Gap CHR ''d'', Gap CHR '' '', Link ''a'' ''b'']"
    by (simp add: pieces_def match_at_def)
  have sep: "separators_only ''[docs](https://e.org/a.pdf) and [a](b)''"
    by (simp add: separators_only_def p external_def)
  have f: "findall ''[docs](https://e.org/a.pdf) and [a](b)''
             = [(''docs'', ''https://e.org/a.pdf''), (''a'', ''b'')]"
    by (simp add: findall_def match_at_def)
  have e: "extract_markdown_links demo_score plain_decode fs_missing
             ''[docs](https://e.org/a.pdf) and [a](b)''
        = [\<lparr>filename = ''a'', url = ''b'', original_link = ''[a](b)'', link_text = ''a'',
            fuzzy_matched = False\<rparr>]"
    by (simp add: extract_markdown_links_def f make_link_info_def scan_files_directory_def
          scan_body_def fs_missing_def find_best_match_def candidate_filename_def path_name_def
          unquote_def first_segment_def Let_def)
  have cards: "\<forall>r\<in>set (extract_markdown_links demo_score plain_decode fs_missing
                          ''[docs](https://e.org/a.pdf) and [a](b)'').
                 \<not> has_separator (filename r) \<and> \<not> has_separator (url r)"
    unfolding e by simp
  note main = second_pass_unchanged_when_separated[OF sep cards]
  show ?thesis
    by (rule conjI[OF sep conjI[OF e conjI[OF main[THEN conjunct1]
                                               main[THEN conjunct2, THEN conjunct1]]]])
qed

text \<open>
  C6 as stated fails: the link text of \<open>[[a](b)](c)\<close> is \<open>[a\<close>, and in the rewritten
  message that bracket, the end of the anchor and the rest \<open>](c)\<close> of the original text
  form a markdown link that a second extraction returns.
\<close>

theorem second_pass_finds_link_counterexample:
  "extract_markdown_links demo_score plain_decode fs_missing
     (rewrite_pass demo_score plain_decode fs_missing ''[[a](b)](c)'')
   = [\<lparr>filename = ''a</a>'', url = ''c'', original_link = ''[a</a>](c)'',
       link_text = ''a</a>'', fuzzy_matched = False\<rparr>]"
proof -
  have f: "findall ''[[a](b)](c)'' = [(''[a'', ''b'')]"
    by (simp add: findall_def match_at_def)
  have e: "extract_markdown_links demo_score plain_decode fs_missing ''[[a](b)](c)''
        = [\<lparr>filename = ''[a'', url = ''b'', original_link = ''[[a](b)'', link_text = ''[a'',
            fuzzy_matched = False\<rparr>]"
    by (simp add: extract_markdown_links_def f make_link_info_def scan_files_directory_def
          scan_body_def fs_missing_def find_best_match_def candidate_filename_def path_name_def
          unquote_def first_segment_def Let_def)
  have out: \<open>rewrite_pass demo_score plain_decode fs_missing ''[[a](b)](c)''
     = ''<a href="#source-card-0" onclick="document.getElementById('source-card-0').scrollIntoView({behavior: 'smooth'}); return false;">[a</a>](c)''
       @ [CHR 0x0A, CHR 0x0A]
       @ ''<div class="source-cards-container"><div class="source-card" id="source-card-0"><div class="card-icon">''
       @ card_icon
       @ ''</div><div class="card-title">[a</div><a href="b" class="card-link" target="_blank">Download</a></div></div>''\<close>
    by (simp add: rewrite_pass_def e rewrite_message_def anchor_link_def anchor_id_def
          str_nat_small card_html_def cards_html_def html_escape_def escape_char_def)
  have f2: "findall (rewrite_pass demo_score plain_decode fs_missing ''[[a](b)](c)'')
              = [(''a</a>'', ''c'')]"
    unfolding out by (simp add: findall_def match_at_def card_icon_def)
  have sc: "fst (scan_files_directory fs_missing ''public/files/'') = None"
    by (simp add: scan_files_directory_def scan_body_def fs_missing_def)
  show ?thesis
    by (simp add: extract_markdown_links_def f2 sc make_link_info_def find_best_match_def
          candidate_filename_def path_name_def unquote_def first_segment_def Let_def)
qed

section \<open>The rewriting stage inside the turn controller\<close>

lemma bot_turn_completed:
  assumes "history0 \<noteq> []" "failure response = None"
  shows "final_history (bot_turn (\<lambda>t. Inr (extract_markdown_links score decode fs t)) response history0)
           = history0 @ [\<lparr>role = ''assistant'',
                           content = rewrite_pass score decode fs (concat (chunks response))\<rparr>]"
proof (cases "extract_markdown_links score decode fs (concat (chunks response)) = []")
  case False
  then show ?thesis
    using bot_turn_rewrites(1)[OF assms, of "\<lambda>t. Inr (extract_markdown_links score decode fs t)"
            "extract_markdown_links score decode fs (concat (chunks response))"]
    by (simp add: rewrite_pass_def)
next
  case True
  define m where "m = \<lparr>role = ''assistant'', content = []\<rparr>"
  define h1 where "h1 = fst (stream_loop (history0 @ [m]) (chunks response))"
  define p1 where "p1 = snd (stream_loop (history0 @ [m]) (chunks response))"
  have sl: "stream_loop (history0 @ [m]) (chunks response) = (h1, p1)"
    by (simp add: h1_def p1_def)
  have h1: "h1 = history0 @ [\<lparr>role = ''assistant'', content = concat (chunks response)\<rparr>]"
    using stream_loop_snoc[of history0 m "chunks response"] by (simp add: h1_def m_def)
  have bt: "bot_try (\<lambda>t. Inr (extract_markdown_links score decode fs t)) response (history0 @ [m])
              = (h1, p1, None)"
    using assms True by (simp add: bot_try_def sl Let_def h1)
  have "final_history (bot_turn (\<lambda>t. Inr (extract_markdown_links score decode fs t)) response history0) = h1"
    using assms(1) bt by (simp add: bot_turn_def m_def[symmetric] Let_def)
  then show ?thesis using True by (simp add: h1 rewrite_pass_def)
qed

end
